theory Spec2Isabelle
  imports Complex_Main
begin

section \<open>The server map of RPG-JS (packages/server/src/Game/Map.ts)\<close>

text \<open>
  The class \<open>RpgMap\<close> keeps the registry of the events of one map, creates events,
  removes them, loads the map definition once and runs the exit path of a leaving
  player. Objects are mutable and shared (the static buffer of loaded maps holds the
  map object itself, the registry holds the event objects), so the model is a store:
  map objects and actor objects live at references (natural numbers) and every
  method takes the state and returns the new one. Calls to collaborators that have
  no result of interest (hooks, the worker pool, the file parser) are appended to a
  trace, in the order the source makes them.
\<close>

subsection \<open>Data\<close>

datatype EventMode = Shared | Scenario

type_synonym properties = "(string \<times> string) list"

text \<open>The statics of an event class, as the decorator \<open>EventData\<close> leaves them.
  A static that was never declared is \<open>undefined\<close> (\<open>None\<close>).\<close>

record EventOptions =
  eo_name :: string
  eo_mode :: "EventMode option"
  eo_width :: "int option"
  eo_height :: "int option"
  eo_hitbox :: "(int \<times> int) option"

text \<open>\<open>EventOption = EventPosOption | EventOptions\<close>: either an object with a
  position and the class, or the class alone (then \<open>obj.x === undefined\<close>).\<close>

datatype EventOption =
    EventPos int int "int option" EventOptions
  | EventBare EventOptions

datatype ShapePositioning = Default | Center

record RpgShape =
  sh_name :: string
  sh_properties :: "properties option"
  sh_x :: int
  sh_y :: int
  sh_w :: int
  sh_h :: int
  sh_positioning :: ShapePositioning
  sh_isEvent :: bool
  playersIn :: "string list"

datatype TeleportTarget = ToPosition int int int | ToName string

text \<open>\<open>RpgEvent extends RpgPlayer\<close>: one record for both. \<open>onInitCalls\<close> counts the
  invocations of the \<open>onInit\<close> hook on the object.\<close>

record RpgPlayer =
  pl_id :: string
  pl_name :: string
  pl_width :: int
  pl_height :: int
  pl_hitbox :: "int \<times> int"
  pl_properties :: properties
  pl_map :: "string option"
  pl_teleported :: "TeleportTarget option"
  pl_server :: bool
  pl_shapes :: "RpgShape list"
  onInitCalls :: nat

record MapData =
  md_version :: "nat option"
  md_properties :: properties
  md_tileWidth :: int
  md_tileHeight :: int
  md_shapes :: "RpgShape list"

datatype MapFile = FileData MapData | FilePath string

record RpgMap =
  map_id :: string
  map_events_list :: "EventOption list option"
  map_file :: MapFile
  map_events :: "(string \<times> nat) list"
  map_data :: "MapData option"
  tileWidth :: int
  tileHeight :: int
  map_shapes :: "RpgShape list"
  map_grid :: "(string \<times> (int \<times> int) list) list"
  map_props :: properties

text \<open>The owner of a shape: the map at a reference, or the actor at a reference.\<close>

datatype owner = OfMap nat | OfActor nat

datatype call =
    ParseFile nat
  | WorkerLoadMap string
  | OnLoad nat
  | AddEvent nat
  | ExecOnInit nat
  | ShapeOut owner string string
  | OnInShape string string
  | OnOutShape string string
  | ClearObjectInCells nat string

text \<open>What the code cannot decide by itself: the platform, the file system, the JSON
  parser, the worker pool, the generator of unique ids, the room of the world that
  answers \<open>getObjectsOfGroup\<close> (references of the objects on a map, for a player),
  and two things of classes that are not in the sources at hand: the hitbox the
  constructor of an actor gives it, and the cells of the grid that an actor occupies.\<close>

record env =
  isBrowser :: bool
  basePath :: string
  readFile :: "string \<Rightarrow> string option"
  jsonParse :: "string \<Rightarrow> MapData option"
  fetchJson :: "MapFile \<Rightarrow> MapData option"
  hasWorkers :: bool
  generateUID :: "nat \<Rightarrow> string"
  getObjectsOfGroup :: "string \<Rightarrow> nat \<Rightarrow> nat list"
  newHitbox :: "int \<times> int"
  cellsOf :: "RpgPlayer \<Rightarrow> (int \<times> int) list"

record state =
  buffer :: "(string \<times> nat) list"
  maps :: "nat \<Rightarrow> RpgMap"
  actors :: "nat \<Rightarrow> RpgPlayer"
  nextRef :: nat
  trace :: "call list"

subsection \<open>JavaScript objects used as dictionaries\<close>

text \<open>An object with string keys is an association list in insertion order:
  assigning to a key that exists keeps its place, \<open>delete\<close> removes the key,
  \<open>for ... in\<close> runs over the keys in order. Two things of JavaScript objects are
  left out: keys that read as array indices come first in a \<open>for ... in\<close>, and an
  assignment to the key \<open>__proto__\<close> sets no property; the identifiers of events are
  taken to be neither. The static buffer of maps is a \<open>Map\<close>, which has neither
  feature.\<close>

fun obj_get :: "(string \<times> 'v) list \<Rightarrow> string \<Rightarrow> 'v option" where
  "obj_get [] k = None"
| "obj_get ((k', v) # kvs) k = (if k' = k then Some v else obj_get kvs k)"

fun obj_set :: "(string \<times> 'v) list \<Rightarrow> string \<Rightarrow> 'v \<Rightarrow> (string \<times> 'v) list" where
  "obj_set [] k v = [(k, v)]"
| "obj_set ((k', v') # kvs) k v =
     (if k' = k then (k, v) # kvs else (k', v') # obj_set kvs k v)"

fun obj_delete :: "(string \<times> 'v) list \<Rightarrow> string \<Rightarrow> (string \<times> 'v) list" where
  "obj_delete [] k = []"
| "obj_delete ((k', v') # kvs) k =
     (if k' = k then obj_delete kvs k else (k', v') # obj_delete kvs k)"

definition obj_has :: "(string \<times> 'v) list \<Rightarrow> string \<Rightarrow> bool" where
  "obj_has kvs k = (obj_get kvs k \<noteq> None)"

text \<open>Reading \<open>obj[key]\<close> on an object literal: a property of its own wins; otherwise
  the members every object inherits from \<open>Object.prototype\<close> are found (functions,
  and the prototype itself under \<open>__proto__\<close>: all truthy); otherwise the value is
  \<open>undefined\<close>.\<close>

definition object_prototype :: "string list" where
  "object_prototype =
     [''constructor'', ''hasOwnProperty'', ''isPrototypeOf'', ''propertyIsEnumerable'',
      ''toLocaleString'', ''toString'', ''valueOf'', ''__proto__'',
      ''__defineGetter__'', ''__defineSetter__'', ''__lookupGetter__'', ''__lookupSetter__'']"

datatype 'v member = Own 'v | Inherited | Undefined

definition obj_lookup :: "(string \<times> 'v) list \<Rightarrow> string \<Rightarrow> 'v member" where
  "obj_lookup kvs k =
     (case obj_get kvs k of
        Some v \<Rightarrow> Own v
      | None \<Rightarrow> if k \<in> set object_prototype then Inherited else Undefined)"

text \<open>\<open>a || b\<close> on an optional number: \<open>undefined\<close> and \<open>0\<close> are falsy.\<close>

definition js_or :: "int option \<Rightarrow> int \<Rightarrow> int" where
  "js_or a b = (case a of None \<Rightarrow> b | Some n \<Rightarrow> if n = 0 then b else n)"

subsection \<open>Collaborators of the map\<close>

text \<open>Modelled from the spec: \<open>game.addEvent\<close> (RpgCommonGame, not in the sources at
  hand) creates the actor of an event class under a generated identifier and adds it to
  the world. A new actor has the size its constructor gives it, no attached shape and
  has run no hook.\<close>

definition addEvent :: "env \<Rightarrow> EventOptions \<Rightarrow> state \<Rightarrow> nat \<times> state" where
  "addEvent e event s =
     (let r = nextRef s;
          ev = \<lparr> pl_id = generateUID e r, pl_name = eo_name event,
                 pl_width = fst (newHitbox e), pl_height = snd (newHitbox e),
                 pl_hitbox = newHitbox e,
                 pl_properties = [], pl_map = None, pl_teleported = None,
                 pl_server = False, pl_shapes = [], onInitCalls = 0 \<rparr>
      in (r, s\<lparr> actors := (actors s)(r := ev), nextRef := Suc r,
                trace := trace s @ [AddEvent r] \<rparr>))"

text \<open>\<open>getShapes\<close> of RpgCommonMap returns the shapes installed at load time.\<close>

definition getShapes :: "RpgMap \<Rightarrow> RpgShape list" where
  "getShapes m = map_shapes m"

definition getEventShape :: "RpgMap \<Rightarrow> string \<Rightarrow> RpgShape option" where
  "getEventShape m eventName = find (\<lambda>shape. sh_name shape = eventName) (getShapes m)"

definition upd_actor :: "nat \<Rightarrow> (RpgPlayer \<Rightarrow> RpgPlayer) \<Rightarrow> state \<Rightarrow> state" where
  "upd_actor r f s = s\<lparr> actors := (actors s)(r := f (actors s r)) \<rparr>"

definition upd_map :: "nat \<Rightarrow> (RpgMap \<Rightarrow> RpgMap) \<Rightarrow> state \<Rightarrow> state" where
  "upd_map r f s = s\<lparr> maps := (maps s)(r := f (maps s r)) \<rparr>"

text \<open>Modelled from the spec: \<open>ev.teleport(target)\<close> (the player class, not in the
  sources at hand) places the actor at the target and, as the spec says of a spawned
  event, registers it in the grid of the map it is created on: under its identifier, in
  the cells it occupies.\<close>

definition teleport :: "env \<Rightarrow> nat \<Rightarrow> nat \<Rightarrow> TeleportTarget \<Rightarrow> state \<Rightarrow> state" where
  "teleport e this r target s =
     (let s1 = upd_actor r (\<lambda>ev. ev\<lparr> pl_teleported := Some target \<rparr>) s;
          ev = actors s1 r
      in upd_map this (\<lambda>m. m\<lparr> map_grid := obj_set (map_grid m) (pl_id ev) (cellsOf e ev) \<rparr>) s1)"

subsection \<open>Creating events\<close>

text \<open>\<open>createEvent(obj, mode, shape?)\<close>. The result is the reference of the new
  actor, or \<open>None\<close> for \<open>null\<close>.\<close>

definition createEvent ::
  "env \<Rightarrow> nat \<Rightarrow> EventOption \<Rightarrow> EventMode \<Rightarrow> RpgShape option \<Rightarrow> state \<Rightarrow> nat option \<times> state"
where
  "createEvent e this obj mode shape s =
     (let (event, position) =
            (case obj of
               EventBare c \<Rightarrow> (c, None)
             | EventPos x y z c \<Rightarrow> (c, Some (ToPosition x y 0)))
      in if eo_mode event \<noteq> Some mode then (None, s)
         else
           let (r, s1) = addEvent e event s;
               m = maps s1 this;
               ev = actors s1 r;
               shape' = (case shape of Some sh \<Rightarrow> Some sh
                         | None \<Rightarrow> getEventShape m (pl_name ev));
               ev1 = ev\<lparr> pl_width := js_or (eo_width event) (tileWidth m),
                         pl_height := js_or (eo_height event) (tileHeight m) \<rparr>;
               ev2 = (case shape' of
                        Some sh \<Rightarrow> (case sh_properties sh of
                                      Some ps \<Rightarrow> ev1\<lparr> pl_properties := ps \<rparr>
                                    | None \<Rightarrow> ev1)
                      | None \<Rightarrow> ev1);
               ev3 = (case eo_hitbox event of
                        Some hb \<Rightarrow> ev2\<lparr> pl_hitbox := hb \<rparr>
                      | None \<Rightarrow> ev2);
               ev4 = ev3\<lparr> pl_map := Some (map_id m) \<rparr>;
               s2 = upd_actor r (\<lambda>_. ev4) s1;
               s3 = teleport e this r
                      (case position of Some p \<Rightarrow> p | None \<Rightarrow> ToName (pl_name ev4)) s2;
               s4 = upd_actor r (\<lambda>ev. ev\<lparr> pl_server := True \<rparr>) s3
           in (Some r, s4))"

text \<open>\<open>createEvents(eventsList, mode)\<close>: the loop over the list, with the object
  \<open>events\<close> as accumulator (\<open>events[ev.id] = ev\<close>).\<close>

fun createEvents_loop ::
  "env \<Rightarrow> nat \<Rightarrow> EventOption list \<Rightarrow> EventMode \<Rightarrow> (string \<times> nat) list \<Rightarrow> state
     \<Rightarrow> (string \<times> nat) list \<times> state"
where
  "createEvents_loop e this [] mode events s = (events, s)"
| "createEvents_loop e this (obj # rest) mode events s =
     (case createEvent e this obj mode None s of
        (None, s') \<Rightarrow> createEvents_loop e this rest mode events s'
      | (Some r, s') \<Rightarrow>
          createEvents_loop e this rest mode (obj_set events (pl_id (actors s' r)) r) s')"

definition createEvents ::
  "env \<Rightarrow> nat \<Rightarrow> EventOption list option \<Rightarrow> EventMode \<Rightarrow> state \<Rightarrow> (string \<times> nat) list \<times> state"
where
  "createEvents e this eventsList mode s =
     (case eventsList of
        None \<Rightarrow> ([], s)
      | Some l \<Rightarrow> createEvents_loop e this l mode [] s)"

text \<open>The argument of \<open>createDynamicEvent\<close>: nothing, one object, or an array.\<close>

datatype EventsArg = NoEvents | OneEvent EventOption | ManyEvents "EventOption list"

text \<open>The body of \<open>for (let key in events)\<close> in \<open>createDynamicEvent\<close>: the event is
  registered under its key, \<open>onInit\<close> is run on the registered object, and the pair
  is added to the result.\<close>

fun register_loop ::
  "nat \<Rightarrow> (string \<times> nat) list \<Rightarrow> (string \<times> nat) list \<Rightarrow> state \<Rightarrow> (string \<times> nat) list \<times> state"
where
  "register_loop this [] ret s = (ret, s)"
| "register_loop this ((key, r) # rest) ret s =
     (let s1 = upd_map this (\<lambda>m. m\<lparr> map_events := obj_set (map_events m) key r \<rparr>) s;
          s2 = upd_actor r (\<lambda>ev. ev\<lparr> onInitCalls := Suc (onInitCalls ev) \<rparr>) s1;
          s3 = s2\<lparr> trace := trace s2 @ [ExecOnInit r] \<rparr>
      in register_loop this rest (obj_set ret key r) s3)"

definition createDynamicEvent ::
  "env \<Rightarrow> nat \<Rightarrow> EventsArg \<Rightarrow> state \<Rightarrow> (string \<times> nat) list \<times> state"
where
  "createDynamicEvent e this eventsList s =
     (case eventsList of
        NoEvents \<Rightarrow> ([], s)
      | _ \<Rightarrow>
        let l = (case eventsList of OneEvent obj \<Rightarrow> [obj] | ManyEvents l \<Rightarrow> l | NoEvents \<Rightarrow> []);
            (events, s1) = createEvents e this (Some l) Shared s
        in register_loop this events [] s1)"

text \<open>\<open>getEvent(eventId)\<close> returns \<open>this.events[eventId]\<close> as it is.\<close>

definition getEvent :: "nat \<Rightarrow> string \<Rightarrow> state \<Rightarrow> nat member" where
  "getEvent this eventId s = obj_lookup (map_events (maps s this)) eventId"

text \<open>\<open>removeEvent(eventId)\<close>: the whole body is the test of the registry and the
  \<open>delete\<close> on it. The test \<open>!this.events[eventId]\<close> fails only for \<open>undefined\<close>:
  an event object and an inherited member are truthy (and \<open>delete\<close> of a name that
  is not a property of the object does nothing).\<close>

definition removeEvent :: "nat \<Rightarrow> string \<Rightarrow> state \<Rightarrow> bool \<times> state" where
  "removeEvent this eventId s =
     (if obj_lookup (map_events (maps s this)) eventId = Undefined then (False, s)
      else (True, upd_map this (\<lambda>m. m\<lparr> map_events := obj_delete (map_events m) eventId \<rparr>) s))"

subsection \<open>Loading the map\<close>

text \<open>The three ways the promise of \<open>parseFile\<close> can end. In the last branch of
  \<open>parseFile\<close>, \<open>JSON.parse\<close> runs inside the callback of \<open>fs.readFile\<close>: when it
  throws, the exception is not caught by the promise, which is then never settled.\<close>

datatype 'a promise = Resolved 'a | Rejected | NeverSettled

text \<open>\<open>basePath + '/' + this.file\<close>: an object is coerced to a string.\<close>

definition file_string :: "MapFile \<Rightarrow> string" where
  "file_string f = (case f of FilePath p \<Rightarrow> p | FileData d \<Rightarrow> ''[object Object]'')"

definition file_version :: "MapFile \<Rightarrow> nat option" where
  "file_version f = (case f of FilePath p \<Rightarrow> None | FileData d \<Rightarrow> md_version d)"

definition parseFile :: "env \<Rightarrow> RpgMap \<Rightarrow> MapData promise" where
  "parseFile e m =
     (case (map_file m, file_version (map_file m)) of
        (FileData d, Some (Suc v)) \<Rightarrow> Resolved d
      | _ \<Rightarrow>
        if isBrowser e then
          (case fetchJson e (map_file m) of Some d \<Rightarrow> Resolved d | None \<Rightarrow> Rejected)
        else
          let filepath = basePath e @ ''/'' @ file_string (map_file m)
          in (case readFile e filepath of
                None \<Rightarrow> Rejected
              | Some text \<Rightarrow>
                  (case jsonParse e text of Some d \<Rightarrow> Resolved d | None \<Rightarrow> NeverSettled)))"

text \<open>Modelled from the spec: \<open>RpgCommonMap.load\<close> (not in the sources at hand) takes
  the parsed definition: it keeps the data, the tile dimensions and the declared
  trigger shapes, and starts an empty grid whose cell size comes from the tile size.\<close>

definition super_load :: "MapData \<Rightarrow> RpgMap \<Rightarrow> RpgMap" where
  "super_load d m =
     m\<lparr> map_data := Some d, tileWidth := md_tileWidth d, tileHeight := md_tileHeight d,
        map_shapes := md_shapes d, map_grid := [] \<rparr>"

text \<open>\<open>loadProperties\<close>: \<open>this[key] = properties[key]\<close> for every key. The key
  \<open>id\<close> overwrites the identifier of the map; every other key is kept in the bag
  \<open>map_props\<close> (the keys of a map definition are taken not to name another member of
  the class).\<close>

fun loadProperties :: "properties \<Rightarrow> RpgMap \<Rightarrow> RpgMap" where
  "loadProperties [] m = m"
| "loadProperties ((key, v) # rest) m =
     loadProperties rest
       (if key = ''id'' then m\<lparr> map_id := v \<rparr>
        else m\<lparr> map_props := obj_set (map_props m) key v \<rparr>)"

datatype outcome = Done | LoadRejected | LoadNeverSettled

definition load :: "env \<Rightarrow> nat \<Rightarrow> state \<Rightarrow> outcome \<times> state" where
  "load e this s =
     (if obj_has (buffer s) (map_id (maps s this)) then (Done, s)
      else
        let s0 = s\<lparr> trace := trace s @ [ParseFile this] \<rparr>
        in case parseFile e (maps s0 this) of
             Rejected \<Rightarrow> (LoadRejected, s0)
           | NeverSettled \<Rightarrow> (LoadNeverSettled, s0)
           | Resolved data \<Rightarrow>
               let s1 = upd_map this (super_load data) s0;
                   s2 = upd_map this (loadProperties (md_properties data)) s1;
                   s3 = (if hasWorkers e
                         then s2\<lparr> trace := trace s2 @ [WorkerLoadMap (map_id (maps s2 this))] \<rparr>
                         else s2);
                   s4 = s3\<lparr> buffer := obj_set (buffer s3) (map_id (maps s3 this)) this \<rparr>;
                   (ret, s5) = createDynamicEvent e this
                                 (case map_events_list (maps s4 this) of
                                    None \<Rightarrow> NoEvents | Some l \<Rightarrow> ManyEvents l) s4
               in (Done, s5\<lparr> trace := trace s5 @ [OnLoad this] \<rparr>))"

subsection \<open>A player leaves the map\<close>

text \<open>Modelled from the spec: \<open>shape.out(actor)\<close> (RpgShape, not in the sources at
  hand) is the forced exit: when the actor is recorded inside the shape it is taken
  out and the hook \<open>onOutShape\<close> fires; otherwise nothing happens. The result tells
  whether the hook fired.\<close>

definition shape_out :: "RpgShape \<Rightarrow> string \<Rightarrow> RpgShape \<times> bool" where
  "shape_out sh pid =
     (if pid \<in> set (playersIn sh)
      then (sh\<lparr> playersIn := removeAll pid (playersIn sh) \<rparr>, True)
      else (sh, False))"

text \<open>\<open>shapes.forEach(shape => shape.out(actor))\<close> over the shapes of one owner:
  the shapes after the calls, and the calls made.\<close>

fun out_shapes :: "owner \<Rightarrow> string \<Rightarrow> RpgShape list \<Rightarrow> RpgShape list \<times> call list" where
  "out_shapes ow pid [] = ([], [])"
| "out_shapes ow pid (sh # shs) =
     (let (sh', fired) = shape_out sh pid;
          (shs', cs) = out_shapes ow pid shs
      in (sh' # shs',
          ShapeOut ow (sh_name sh) pid
            # (if fired then [OnOutShape pid (sh_name sh)] else []) @ cs))"

definition owner_shapes :: "owner \<Rightarrow> state \<Rightarrow> RpgShape list" where
  "owner_shapes ow s =
     (case ow of OfMap r \<Rightarrow> getShapes (maps s r) | OfActor r \<Rightarrow> pl_shapes (actors s r))"

definition forEach_out :: "owner \<Rightarrow> string \<Rightarrow> state \<Rightarrow> state" where
  "forEach_out ow pid s =
     (let (shs', cs) = out_shapes ow pid (owner_shapes ow s);
          s' = (case ow of
                  OfMap r \<Rightarrow> upd_map r (\<lambda>m. m\<lparr> map_shapes := shs' \<rparr>) s
                | OfActor r \<Rightarrow> upd_actor r (\<lambda>a. a\<lparr> pl_shapes := shs' \<rparr>) s)
      in s'\<lparr> trace := trace s' @ cs \<rparr>)"

text \<open>The body of \<open>for (let event of events)\<close> in \<open>onLeave\<close>.\<close>

definition leave_event :: "nat \<Rightarrow> nat \<Rightarrow> state \<Rightarrow> state" where
  "leave_event player event s =
     (let s1 = forEach_out (OfActor player) (pl_id (actors s event)) s
      in forEach_out (OfActor event) (pl_id (actors s1 player)) s1)"

text \<open>Modelled from the spec: \<open>grid.clearObjectInCells(id)\<close> (the grid of
  RpgCommonMap, not in the sources at hand) takes the object out of every cell it was
  registered in; for an object that is not registered it does nothing.\<close>

definition clearObjectInCells :: "nat \<Rightarrow> string \<Rightarrow> state \<Rightarrow> state" where
  "clearObjectInCells this pid s =
     (let s' = upd_map this (\<lambda>m. m\<lparr> map_grid := obj_delete (map_grid m) pid \<rparr>) s
      in s'\<lparr> trace := trace s' @ [ClearObjectInCells this pid] \<rparr>)"

definition onLeave :: "env \<Rightarrow> nat \<Rightarrow> nat \<Rightarrow> state \<Rightarrow> state" where
  "onLeave e this player s =
     (let s1 = forEach_out (OfMap this) (pl_id (actors s player)) s;
          events = getObjectsOfGroup e (map_id (maps s1 this)) player;
          s2 = fold (leave_event player) events s1
      in clearObjectInCells this (pl_id (actors s2 player)) s2)"

section \<open>The spatial core: geometry, movement, triggers\<close>

text \<open>
  The classes that move an actor, compute its bounding region and detect triggers
  (the player of the common package, \<open>Move\<close>, the shapes) are not among the sources at
  hand: only their tests and their callers are. This section models them from the
  specification. Positions, sizes and speeds are whole numbers of pixels; a bounding
  region has rational corners, since a centred shape is placed at half sizes.
\<close>

subsection \<open>Geometry\<close>

record Box =
  minX :: rat
  minY :: rat
  maxX :: rat
  maxY :: rat

text \<open>An auxiliary shape attached to an actor: fixed size and a positioning rule.\<close>

record Attachment =
  at_width :: int
  at_height :: int
  at_positioning :: ShapePositioning

text \<open>The directions, in the order of their codes: Up is 1, Right 2, Down 3, Left 4.\<close>

datatype Direction = Up | Right | Down | Left

record Actor =
  ac_id :: string
  ac_x :: int
  ac_y :: int
  ac_z :: int
  hb_width :: int
  hb_height :: int
  ac_speed :: int
  ac_direction :: Direction
  ac_shapes :: "Attachment list"

text \<open>Modelled from the spec: the hitbox is anchored at the top left, its min corner is
  the position of the actor.\<close>

definition hitbox_box :: "Actor \<Rightarrow> Box" where
  "hitbox_box a =
     \<lparr> minX = of_int (ac_x a), minY = of_int (ac_y a),
       maxX = of_int (ac_x a + hb_width a), maxY = of_int (ac_y a + hb_height a) \<rparr>"

text \<open>Modelled from the spec: the region of an attached shape. With the default
  positioning its min corner is the position of the actor; with \<open>Center\<close> it is the
  centre of the hitbox minus half the size of the shape.\<close>

definition shape_box :: "Actor \<Rightarrow> Attachment \<Rightarrow> Box" where
  "shape_box a sh =
     (case at_positioning sh of
        Default \<Rightarrow>
          \<lparr> minX = of_int (ac_x a), minY = of_int (ac_y a),
            maxX = of_int (ac_x a + at_width sh), maxY = of_int (ac_y a + at_height sh) \<rparr>
      | Center \<Rightarrow>
          let cx = of_int (ac_x a) + of_int (hb_width a) / 2;
              cy = of_int (ac_y a) + of_int (hb_height a) / 2;
              mx = cx - of_int (at_width sh) / 2;
              my = cy - of_int (at_height sh) / 2
          in \<lparr> minX = mx, minY = my,
               maxX = mx + of_int (at_width sh), maxY = my + of_int (at_height sh) \<rparr>)"

definition box_union :: "Box \<Rightarrow> Box \<Rightarrow> Box" where
  "box_union A B =
     \<lparr> minX = min (minX A) (minX B), minY = min (minY A) (minY B),
       maxX = max (maxX A) (maxX B), maxY = max (maxY A) (maxY B) \<rparr>"

text \<open>Modelled from the spec: \<open>getSizeMaxShape\<close>, the maximal bounding region of the
  hitbox and the attached shapes, recomputed from the current position at every call.\<close>

definition getSizeMaxShape :: "Actor \<Rightarrow> Box" where
  "getSizeMaxShape a = fold (\<lambda>sh acc. box_union acc (shape_box a sh)) (ac_shapes a) (hitbox_box a)"

text \<open>\<open>covers A B\<close>: the rectangle \<open>A\<close> contains the rectangle \<open>B\<close>.\<close>

definition covers :: "Box \<Rightarrow> Box \<Rightarrow> bool" where
  "covers A B = (minX A \<le> minX B \<and> minY A \<le> minY B \<and> maxX B \<le> maxX A \<and> maxY B \<le> maxY A)"

subsection \<open>Movement\<close>

text \<open>The map as movement sees it: its size in pixels, the size of a tile, and the
  static collision layer as the test a rectangle is submitted to.\<close>

record GameMap =
  widthPx :: int
  heightPx :: int
  gm_tileWidth :: int
  gm_tileHeight :: int
  collision :: "Box \<Rightarrow> bool"

datatype MoveCommand =
    Step Direction
  | RepeatStep Direction nat
  | TileStep Direction nat
  | Turn Direction
  | TowardTarget int int
  | AwayFromTarget int int

fun vec :: "Direction \<Rightarrow> int \<times> int" where
  "vec Up = (0, -1)"
| "vec Right = (1, 0)"
| "vec Down = (0, 1)"
| "vec Left = (-1, 0)"

definition displace :: "Actor \<Rightarrow> int \<times> int \<Rightarrow> int \<Rightarrow> Actor" where
  "displace a d n = a\<lparr> ac_x := ac_x a + n * fst d, ac_y := ac_y a + n * snd d \<rparr>"

definition in_bounds :: "GameMap \<Rightarrow> Box \<Rightarrow> bool" where
  "in_bounds m B =
     (0 \<le> minX B \<and> 0 \<le> minY B \<and> maxX B \<le> of_int (widthPx m) \<and> maxY B \<le> of_int (heightPx m))"

text \<open>Modelled from the spec: the check of a destination. The rectangle of the actor
  there must lie within the edges of the map and must not touch the collision layer.\<close>

definition valid_at :: "GameMap \<Rightarrow> Actor \<Rightarrow> bool" where
  "valid_at m a = (in_bounds m (getSizeMaxShape a) \<and> \<not> collision m (getSizeMaxShape a))"

text \<open>Modelled from the spec: the clamp to the last valid coordinate along the axis.
  The actor goes pixel by pixel towards the destination and stops before the first
  pixel at which its rectangle fails the check.\<close>

fun slide :: "GameMap \<Rightarrow> Actor \<Rightarrow> int \<times> int \<Rightarrow> nat \<Rightarrow> Actor" where
  "slide m a d 0 = a"
| "slide m a d (Suc n) =
     (if valid_at m (displace a d 1) then slide m (displace a d 1) d n else a)"

text \<open>Modelled from the spec: the directional step. The direction becomes the facing
  of the actor; the destination is \<open>speed\<close> pixels away; it is committed when it
  passes the check, and otherwise the position is clamped.\<close>

definition directional_step :: "GameMap \<Rightarrow> Actor \<Rightarrow> Direction \<Rightarrow> Actor" where
  "directional_step m a dir =
     (let a1 = a\<lparr> ac_direction := dir \<rparr>;
          dest = displace a1 (vec dir) (ac_speed a1)
      in if valid_at m dest then dest
         else slide m a1 (sgn (ac_speed a1) * fst (vec dir), sgn (ac_speed a1) * snd (vec dir))
                (nat \<bar>ac_speed a1\<bar>))"

fun repeat_step :: "GameMap \<Rightarrow> Actor \<Rightarrow> Direction \<Rightarrow> nat \<Rightarrow> Actor" where
  "repeat_step m a dir 0 = a"
| "repeat_step m a dir (Suc n) = repeat_step m (directional_step m a dir) dir n"

text \<open>The position of the actor on the axis of the direction is an exact multiple of
  the tile dimension (a remainder by zero is not a number and never equal to zero).\<close>

definition aligned :: "GameMap \<Rightarrow> Actor \<Rightarrow> Direction \<Rightarrow> bool" where
  "aligned m a dir =
     (case dir of
        Up \<Rightarrow> gm_tileHeight m \<noteq> 0 \<and> ac_y a mod gm_tileHeight m = 0
      | Down \<Rightarrow> gm_tileHeight m \<noteq> 0 \<and> ac_y a mod gm_tileHeight m = 0
      | Left \<Rightarrow> gm_tileWidth m \<noteq> 0 \<and> ac_x a mod gm_tileWidth m = 0
      | Right \<Rightarrow> gm_tileWidth m \<noteq> 0 \<and> ac_x a mod gm_tileWidth m = 0)"

text \<open>Modelled from the spec: the tile-aligned step repeats the directional step until
  the position is aligned. The loop may go on for ever (an actor held by a wall away
  from a tile boundary), so it runs on fuel: \<open>None\<close> when the fuel runs out.\<close>

fun tile_loop :: "GameMap \<Rightarrow> nat \<Rightarrow> Actor \<Rightarrow> Direction \<Rightarrow> Actor option" where
  "tile_loop m 0 a dir = None"
| "tile_loop m (Suc fuel) a dir =
     (let a' = directional_step m a dir
      in if aligned m a' dir then Some a' else tile_loop m fuel a' dir)"

fun tile_step :: "GameMap \<Rightarrow> nat \<Rightarrow> Actor \<Rightarrow> Direction \<Rightarrow> nat \<Rightarrow> Actor option" where
  "tile_step m fuel a dir 0 = Some a"
| "tile_step m fuel a dir (Suc n) =
     (case tile_loop m fuel a dir of
        None \<Rightarrow> None
      | Some a' \<Rightarrow> tile_step m fuel a' dir n)"

text \<open>Modelled from the spec: the direction towards a target is taken on the axis of
  the greater absolute distance and decreases that distance; away from the target is
  the opposite direction.\<close>

definition toward :: "Actor \<Rightarrow> int \<Rightarrow> int \<Rightarrow> Direction" where
  "toward a tx ty =
     (if \<bar>tx - ac_x a\<bar> > \<bar>ty - ac_y a\<bar>
      then (if tx > ac_x a then Right else Left)
      else (if ty > ac_y a then Down else Up))"

fun opposite :: "Direction \<Rightarrow> Direction" where
  "opposite Up = Down"
| "opposite Down = Up"
| "opposite Left = Right"
| "opposite Right = Left"

text \<open>Modelled from the spec: \<open>advance(actor, command)\<close>, one command of a route.\<close>

fun advance :: "GameMap \<Rightarrow> nat \<Rightarrow> Actor \<Rightarrow> MoveCommand \<Rightarrow> Actor option" where
  "advance m fuel a (Step dir) = Some (directional_step m a dir)"
| "advance m fuel a (RepeatStep dir n) = Some (repeat_step m a dir n)"
| "advance m fuel a (TileStep dir n) = tile_step m fuel a dir n"
| "advance m fuel a (Turn dir) = Some (a\<lparr> ac_direction := dir \<rparr>)"
| "advance m fuel a (TowardTarget tx ty) = Some (directional_step m a (toward a tx ty))"
| "advance m fuel a (AwayFromTarget tx ty) =
     Some (directional_step m a (opposite (toward a tx ty)))"

text \<open>A route: the commands in order, each on the actor the previous one left.\<close>

fun moveRoutes :: "GameMap \<Rightarrow> nat \<Rightarrow> Actor \<Rightarrow> MoveCommand list \<Rightarrow> Actor option" where
  "moveRoutes m fuel a [] = Some a"
| "moveRoutes m fuel a (c # cs) =
     (case advance m fuel a c of
        None \<Rightarrow> None
      | Some a' \<Rightarrow> moveRoutes m fuel a' cs)"

text \<open>The position lies in the rectangle of the map.\<close>

definition in_map :: "GameMap \<Rightarrow> Actor \<Rightarrow> bool" where
  "in_map m a = (0 \<le> ac_x a \<and> ac_x a \<le> widthPx m \<and> 0 \<le> ac_y a \<and> ac_y a \<le> heightPx m)"

subsection \<open>Triggers\<close>

text \<open>A trigger shape: a named region of the map.\<close>

record Trigger =
  tr_name :: string
  tr_box :: Box

text \<open>Modelled from the spec: two regions overlap when their intervals meet on both
  axes; touching edges do not count.\<close>

definition intersects :: "Box \<Rightarrow> Box \<Rightarrow> bool" where
  "intersects A B =
     (minX A < maxX B \<and> minX B < maxX A \<and> minY A < maxY B \<and> minY B < maxY A)"

definition overlap_set :: "Trigger list \<Rightarrow> Box \<Rightarrow> string list" where
  "overlap_set shapes B = map tr_name (filter (\<lambda>t. intersects (tr_box t) B) shapes)"

text \<open>Modelled from the spec: \<open>evaluate\<close>. From the shapes in the order they were
  registered, the bounding region of the actor and the overlap set of the previous
  evaluation: the shapes entered, the shapes left, and the new overlap set.\<close>

definition evaluate ::
  "Trigger list \<Rightarrow> Box \<Rightarrow> string list \<Rightarrow> (string list \<times> string list) \<times> string list"
where
  "evaluate shapes B prev =
     (let new = overlap_set shapes B;
          entered = filter (\<lambda>n. n \<notin> set prev) new;
          exited = filter (\<lambda>n. n \<notin> set new) prev
      in ((entered, exited), new))"

text \<open>The hooks of one evaluation, for the actor \<open>pid\<close>.\<close>

definition fire :: "string \<Rightarrow> string list \<times> string list \<Rightarrow> call list" where
  "fire pid tr = map (OnInShape pid) (fst tr) @ map (OnOutShape pid) (snd tr)"

text \<open>The evaluations after successive position commits of one actor. Each commit
  comes with the shapes registered at that time (the shapes carried by other actors
  move with them) and the bounding region of the actor there. The result: the hooks
  fired, and the overlap set kept for the next evaluation.\<close>

fun commits ::
  "string \<Rightarrow> (Trigger list \<times> Box) list \<Rightarrow> string list \<Rightarrow> call list \<times> string list"
where
  "commits pid [] prev = ([], prev)"
| "commits pid ((shapes, B) # rest) prev =
     (let (tr, new) = evaluate shapes B prev;
          (cs, final) = commits pid rest new
      in (fire pid tr @ cs, final))"

text \<open>What the hooks about one shape should be, given whether the actor was inside
  before and whether it is inside after each commit: one hook at each change.\<close>

fun transitions :: "string \<Rightarrow> string \<Rightarrow> bool \<Rightarrow> bool list \<Rightarrow> call list" where
  "transitions pid n b [] = []"
| "transitions pid n b (b' # bs) =
     (if \<not> b \<and> b' then [OnInShape pid n]
      else if b \<and> \<not> b' then [OnOutShape pid n]
      else []) @ transitions pid n b' bs"

text \<open>The calls that concern the shape \<open>n\<close> and the actor \<open>pid\<close>.\<close>

definition about :: "string \<Rightarrow> string \<Rightarrow> call \<Rightarrow> bool" where
  "about pid n c = (c = OnInShape pid n \<or> c = OnOutShape pid n)"


section \<open>Auxiliary notions for the statements\<close>

text \<open>The event class of an element of an events list, as the first lines of
  \<open>createEvent\<close> read it.\<close>

definition event_class :: "EventOption \<Rightarrow> EventOptions" where
  "event_class obj = (case obj of EventBare c \<Rightarrow> c | EventPos x y z c \<Rightarrow> c)"

text \<open>The list that \<open>createDynamicEvent\<close> hands to \<open>createEvents\<close>.\<close>

definition events_of :: "EventsArg \<Rightarrow> EventOption list" where
  "events_of a = (case a of NoEvents \<Rightarrow> [] | OneEvent obj \<Rightarrow> [obj] | ManyEvents l \<Rightarrow> l)"

text \<open>The accumulator of \<open>createEvents\<close> holds events that are new since the reference
  \<open>n\<close>: distinct keys, distinct objects, none of which has run \<open>onInit\<close>.\<close>

definition fresh_events :: "(string \<times> nat) list \<Rightarrow> nat \<Rightarrow> state \<Rightarrow> bool" where
  "fresh_events evs n s =
     (distinct (map fst evs) \<and> distinct (map snd evs)
      \<and> list_all (\<lambda>(k, r). n \<le> r \<and> r < nextRef s \<and> onInitCalls (actors s r) = 0) evs)"


text \<open>Two map objects that differ at most in the grid.\<close>

definition apart_from_grid :: "RpgMap \<Rightarrow> RpgMap \<Rightarrow> bool" where
  "apart_from_grid m m' = (\<exists>g. m' = m\<lparr> map_grid := g \<rparr>)"

text \<open>The calls of the exit path: a forced exit, or the hook it fires.\<close>

definition is_out_call :: "call \<Rightarrow> bool" where
  "is_out_call c = (case c of ShapeOut ow n p \<Rightarrow> True | OnOutShape p n \<Rightarrow> True | _ \<Rightarrow> False)"

text \<open>The names of the shapes of an owner, and the names of those that hold the
  actor \<open>p\<close>.\<close>

definition shape_names :: "owner \<Rightarrow> state \<Rightarrow> string list" where
  "shape_names ow s = map sh_name (owner_shapes ow s)"

definition pending :: "owner \<Rightarrow> state \<Rightarrow> string \<Rightarrow> string set" where
  "pending ow s p = set (map sh_name (filter (\<lambda>sh. p \<in> set (playersIn sh)) (owner_shapes ow s)))"

text \<open>\<open>exits T s s'\<close>: from \<open>s\<close> to \<open>s'\<close> only forced exits happened, their calls
  are \<open>T\<close>: shapes keep their names, actors and maps their identifiers, the grid is
  as before, no actor enters a shape, and whoever left a shape had the hook fired.\<close>

definition exits :: "call list \<Rightarrow> state \<Rightarrow> state \<Rightarrow> bool" where
  "exits T s s' =
     (trace s' = trace s @ T \<and> list_all is_out_call T
      \<and> (\<forall>ow. shape_names ow s' = shape_names ow s)
      \<and> (\<forall>r. pl_id (actors s' r) = pl_id (actors s r))
      \<and> (\<forall>r. map_id (maps s' r) = map_id (maps s r) \<and> map_grid (maps s' r) = map_grid (maps s r))
      \<and> (\<forall>ow p. pending ow s' p \<subseteq> pending ow s p)
      \<and> (\<forall>ow p. pending ow s p \<subseteq> pending ow s' p \<union> {n. OnOutShape p n \<in> set T}))"

text \<open>What one turn of the loop of \<open>onLeave\<close> owes for the object \<open>ev\<close>: the calls
  in both directions, and afterwards neither is inside a shape of the other.\<close>

definition leave_calls :: "nat \<Rightarrow> nat \<Rightarrow> state \<Rightarrow> call list \<Rightarrow> bool" where
  "leave_calls P ev s T =
     ((\<forall>n \<in> set (shape_names (OfActor P) s). ShapeOut (OfActor P) n (pl_id (actors s ev)) \<in> set T)
      \<and> (\<forall>n \<in> set (shape_names (OfActor ev) s). ShapeOut (OfActor ev) n (pl_id (actors s P)) \<in> set T))"

definition left :: "nat \<Rightarrow> nat \<Rightarrow> state \<Rightarrow> state \<Rightarrow> bool" where
  "left P ev s s' =
     (pending (OfActor ev) s' (pl_id (actors s P)) = {}
      \<and> pending (OfActor P) s' (pl_id (actors s ev)) = {})"


text \<open>The position of an actor as a triple.\<close>

definition position :: "Actor \<Rightarrow> int \<times> int \<times> int" where
  "position a = (ac_x a, ac_y a, ac_z a)"

text \<open>The part of an actor that a move never changes.\<close>

definition same_body :: "Actor \<Rightarrow> Actor \<Rightarrow> bool" where
  "same_body a b = (ac_id b = ac_id a \<and> ac_z b = ac_z a \<and> hb_width b = hb_width a
     \<and> hb_height b = hb_height a \<and> ac_speed b = ac_speed a \<and> ac_shapes b = ac_shapes a)"

text \<open>The invariant of movement: a hitbox of non-negative size, at a position of the
  map.\<close>

definition steady :: "GameMap \<Rightarrow> Actor \<Rightarrow> bool" where
  "steady m a = (0 \<le> hb_width a \<and> 0 \<le> hb_height a \<and> in_map m a)"


section \<open>A small world for concrete runs\<close>

definition blank_actor :: RpgPlayer where
  "blank_actor = \<lparr> pl_id = [], pl_name = [], pl_width = 0, pl_height = 0, pl_hitbox = (0, 0),
     pl_properties = [], pl_map = None, pl_teleported = None, pl_server = False,
     pl_shapes = [], onInitCalls = 0 \<rparr>"

definition ex_shared :: EventOptions where
  "ex_shared = \<lparr> eo_name = ''EV-1'', eo_mode = Some Shared, eo_width = None,
     eo_height = None, eo_hitbox = Some (32, 16) \<rparr>"

definition ex_scenario :: EventOptions where
  "ex_scenario = \<lparr> eo_name = ''EV-2'', eo_mode = Some Scenario, eo_width = None,
     eo_height = None, eo_hitbox = None \<rparr>"

definition ex_data :: MapData where
  "ex_data = \<lparr> md_version = Some 1, md_properties = [(''weather'', ''rain'')],
     md_tileWidth = 32, md_tileHeight = 32, md_shapes = [] \<rparr>"

definition ex_map :: RpgMap where
  "ex_map = \<lparr> map_id = ''town'',
     map_events_list = Some [EventPos 100 100 None ex_shared, EventBare ex_scenario],
     map_file = FilePath ''town.json'', map_events = [], map_data = None,
     tileWidth = 0, tileHeight = 0, map_shapes = [], map_grid = [], map_props = [] \<rparr>"

definition ex_env :: env where
  "ex_env = \<lparr> isBrowser = False, basePath = ''maps'',
     readFile = (\<lambda>p. if p = ''maps/town.json'' then Some ''{}'' else None),
     jsonParse = (\<lambda>t. if t = ''{}'' then Some ex_data else None),
     fetchJson = (\<lambda>f. None), hasWorkers = True,
     generateUID = (\<lambda>n. replicate (Suc n) CHR ''e''),
     getObjectsOfGroup = (\<lambda>m p. []), newHitbox = (0, 0),
     cellsOf = (\<lambda>a. [(3, 3), (4, 3)]) \<rparr>"

text \<open>The same environment with no file on the disk.\<close>

definition ex_env_missing :: env where
  "ex_env_missing = ex_env\<lparr> readFile := (\<lambda>p. None) \<rparr>"

text \<open>The same environment with a file on the disk that is not JSON, and the same
  environment in the browser, where the fetch of the map fails.\<close>

definition ex_env_malformed :: env where
  "ex_env_malformed =
     ex_env\<lparr> readFile := (\<lambda>p. if p = ''maps/town.json'' then Some ''{'' else None) \<rparr>"

definition ex_env_browser :: env where
  "ex_env_browser = ex_env\<lparr> isBrowser := True \<rparr>"

definition ex_state :: state where
  "ex_state = \<lparr> buffer = [], maps = (\<lambda>r. ex_map), actors = (\<lambda>r. blank_actor),
     nextRef = 0, trace = [] \<rparr>"

text \<open>A loaded map with one registered event that stands in two cells of the grid.\<close>

definition ex_placed :: state where
  "ex_placed = ex_state\<lparr> maps := (\<lambda>r. ex_map\<lparr> map_events := [(''EV-1'', 7)],
                                               map_grid := [(''EV-1'', [(3, 3), (4, 3)])] \<rparr>),
                          nextRef := 8 \<rparr>"

text \<open>A player \<open>p1\<close> inside a zone of the map, carrying a shape that holds the event
  \<open>ev1\<close>, whose own shape holds the player; the group of the map is the event.\<close>

definition ex_shape :: "string \<Rightarrow> string list \<Rightarrow> RpgShape" where
  "ex_shape n ps = \<lparr> sh_name = n, sh_properties = None, sh_x = 0, sh_y = 0, sh_w = 64, sh_h = 64,
     sh_positioning = Default, sh_isEvent = False, playersIn = ps \<rparr>"

definition ex_leave :: state where
  "ex_leave = ex_state\<lparr>
     maps := (\<lambda>r. ex_map\<lparr> map_shapes := [ex_shape ''zone'' [''p1'']],
                          map_grid := [(''p1'', [(0, 0)])] \<rparr>),
     actors := (\<lambda>r. if r = 1 then blank_actor\<lparr> pl_id := ''p1'',
                                     pl_shapes := [ex_shape ''aura'' [''ev1'']] \<rparr>
                    else if r = 2 then blank_actor\<lparr> pl_id := ''ev1'',
                                     pl_shapes := [ex_shape ''sight'' [''p1'']] \<rparr>
                    else blank_actor),
     nextRef := 3 \<rparr>"

definition ex_env_group :: env where
  "ex_env_group = ex_env\<lparr> getObjectsOfGroup := (\<lambda>m p. [2]) \<rparr>"

text \<open>The player of the tests: hitbox 32 by 32 at the origin, speed 3, on a map of
  640 by 480 pixels with tiles of 30 pixels and no obstacle; and a zone between
  \<open>x = 100\<close> and \<open>x = 200\<close>.\<close>

definition ex_actor :: Actor where
  "ex_actor = \<lparr> ac_id = ''p1'', ac_x = 0, ac_y = 0, ac_z = 0, hb_width = 32, hb_height = 32,
     ac_speed = 3, ac_direction = Down, ac_shapes = [] \<rparr>"

definition ex_gamemap :: GameMap where
  "ex_gamemap = \<lparr> widthPx = 640, heightPx = 480, gm_tileWidth = 30, gm_tileHeight = 30,
     collision = (\<lambda>B. False) \<rparr>"

definition ex_centred :: "int \<Rightarrow> int \<Rightarrow> Attachment" where
  "ex_centred w h = \<lparr> at_width = w, at_height = h, at_positioning = Center \<rparr>"

definition ex_carrier :: "Attachment list \<Rightarrow> Actor" where
  "ex_carrier shs = ex_actor\<lparr> ac_x := 200, ac_y := 200, hb_width := 10, hb_height := 10,
     ac_shapes := shs \<rparr>"

definition ex_triggers :: "Trigger list" where
  "ex_triggers = [\<lparr> tr_name = ''zone'',
                    tr_box = \<lparr> minX = 100, minY = 0, maxX = 200, maxY = 100 \<rparr> \<rparr>]"

definition ex_box :: "int \<Rightarrow> Box" where
  "ex_box x = getSizeMaxShape (ex_actor\<lparr> ac_x := x \<rparr>)"

lemmas ex_defs = blank_actor_def ex_shared_def ex_scenario_def ex_data_def ex_map_def
  ex_env_def ex_env_missing_def ex_env_malformed_def ex_env_browser_def ex_state_def ex_placed_def ex_shape_def ex_leave_def
  ex_env_group_def ex_actor_def ex_gamemap_def ex_centred_def ex_carrier_def ex_triggers_def
  ex_box_def

lemmas map_defs = createEvent_def createEvents_def createDynamicEvent_def addEvent_def
  teleport_def obj_lookup_def object_prototype_def upd_actor_def upd_map_def getEventShape_def getShapes_def js_or_def load_def parseFile_def
  file_string_def file_version_def super_load_def obj_has_def getEvent_def removeEvent_def
  onLeave_def leave_event_def forEach_out_def owner_shapes_def shape_out_def
  clearObjectInCells_def Let_def

lemmas move_defs = directional_step_def displace_def valid_at_def in_bounds_def
  getSizeMaxShape_def hitbox_box_def shape_box_def box_union_def aligned_def position_def
  covers_def intersects_def overlap_set_def evaluate_def fire_def in_map_def Let_def

section \<open>Properties of the map\<close>

lemma createEvent_mismatch:
  "eo_mode (event_class obj) \<noteq> Some mode \<Longrightarrow> createEvent e this obj mode shape s = (None, s)"
  by (cases obj) (simp_all add: createEvent_def event_class_def)

lemma createEvent_None:
  "createEvent e this obj mode shape s = (None, s') \<Longrightarrow>
     s' = s \<and> eo_mode (event_class obj) \<noteq> Some mode"
  by (cases obj)
     (auto simp: createEvent_def event_class_def addEvent_def Let_def split: if_splits prod.splits)

lemma apart_from_grid_refl: "apart_from_grid m m"
  by (auto simp: apart_from_grid_def intro: exI[of _ "map_grid m"])

lemma apart_from_grid_trans:
  "apart_from_grid m m' \<Longrightarrow> apart_from_grid m' m'' \<Longrightarrow> apart_from_grid m m''"
  by (auto simp: apart_from_grid_def)

lemma apart_from_grid_fields:
  "apart_from_grid m m' \<Longrightarrow>
     map_id m' = map_id m \<and> map_events m' = map_events m \<and> map_shapes m' = map_shapes m"
  by (auto simp: apart_from_grid_def)

lemma teleport_frame:
  "nextRef (teleport e this r t s) = nextRef s"
  "buffer (teleport e this r t s) = buffer s"
  "trace (teleport e this r t s) = trace s"
  "actors (teleport e this r t s) q
     = (if q = r then (actors s r)\<lparr> pl_teleported := Some t \<rparr> else actors s q)"
  by (simp_all add: teleport_def upd_actor_def upd_map_def Let_def)

lemma teleport_apart: "apart_from_grid (maps s q) (maps (teleport e this r t s) q)"
proof (cases "q = this")
  case True
  then show ?thesis
    unfolding apart_from_grid_def teleport_def upd_actor_def upd_map_def Let_def
    by (intro exI[of _ "obj_set (map_grid (maps s this))
          (pl_id ((actors s r)\<lparr> pl_teleported := Some t \<rparr>))
          (cellsOf e ((actors s r)\<lparr> pl_teleported := Some t \<rparr>))"]) simp
next
  case False
  then show ?thesis
    by (simp add: teleport_def upd_actor_def upd_map_def Let_def apart_from_grid_refl)
qed

lemma teleport_apart': "m = maps s q \<Longrightarrow> apart_from_grid m (maps (teleport e this r t s) q)"
  by (simp add: teleport_apart)

lemma createEvent_Some:
  "createEvent e this obj mode shape s = (Some r, s') \<Longrightarrow>
     r = nextRef s \<and> nextRef s' = Suc (nextRef s)
     \<and> (\<forall>q. apart_from_grid (maps s q) (maps s' q)) \<and> buffer s' = buffer s
     \<and> onInitCalls (actors s' r) = 0
     \<and> (\<forall>q. q \<noteq> r \<longrightarrow> actors s' q = actors s q)
     \<and> eo_mode (event_class obj) = Some mode"
  by (cases obj)
     (auto simp: createEvent_def event_class_def addEvent_def upd_actor_def Let_def
           teleport_frame teleport_apart'
           split: if_splits prod.splits option.splits)

lemma obj_get_set: "obj_get (obj_set kvs k v) k' = (if k' = k then Some v else obj_get kvs k')"
  by (induction kvs) auto

lemma obj_get_delete: "obj_get (obj_delete kvs k) k' = (if k' = k then None else obj_get kvs k')"
  by (induction kvs) auto

lemma obj_set_keys:
  "map fst (obj_set kvs k v) = (if k \<in> set (map fst kvs) then map fst kvs else map fst kvs @ [k])"
  by (induction kvs) (force split: if_splits)+

lemma obj_set_distinct_fst: "distinct (map fst kvs) \<Longrightarrow> distinct (map fst (obj_set kvs k v))"
  by (simp add: obj_set_keys)

lemma obj_set_subset: "set (obj_set kvs k v) \<subseteq> insert (k, v) (set kvs)"
  by (induction kvs) (auto split: if_splits)

lemma obj_set_distinct_snd:
  "distinct (map snd kvs) \<Longrightarrow> v \<notin> set (map snd kvs) \<Longrightarrow> distinct (map snd (obj_set kvs k v))"
proof (induction kvs)
  case Nil
  then show ?case by simp
next
  case (Cons a kvs)
  obtain k' v' where a: "a = (k', v')" by (cases a)
  have "v' \<notin> snd ` set (obj_set kvs k v)"
    using Cons.prems obj_set_subset[of kvs k v] a by force
  with Cons a show ?case by auto
qed


lemma fresh_events_step:
  assumes cs: "createEvent e this obj mode shape s = (Some r, s1)"
    and fr: "fresh_events acc n s" and n: "n \<le> nextRef s"
  shows "fresh_events (obj_set acc k r) n s1"
proof -
  note f = createEvent_Some[OF cs]
  have old: "\<forall>(k, q) \<in> set acc. n \<le> q \<and> q < nextRef s \<and> onInitCalls (actors s q) = 0"
    using fr by (simp add: fresh_events_def list_all_iff)
  have rnot: "r \<notin> set (map snd acc)"
    using old f by force
  have d1: "distinct (map fst (obj_set acc k r))" and d2: "distinct (map snd (obj_set acc k r))"
    using fr rnot by (simp_all add: fresh_events_def obj_set_distinct_fst obj_set_distinct_snd)
  have "n \<le> q \<and> q < nextRef s1 \<and> onInitCalls (actors s1 q) = 0"
    if "(k', q) \<in> set (obj_set acc k r)" for k' q
  proof (cases "q = r")
    case True
    with f n show ?thesis by auto
  next
    case False
    with that obj_set_subset[of acc k r] have "(k', q) \<in> set acc" by auto
    with old have "n \<le> q \<and> q < nextRef s \<and> onInitCalls (actors s q) = 0" by auto
    with f False show ?thesis by simp
  qed
  then show ?thesis using d1 d2 by (auto simp: fresh_events_def list_all_iff)
qed

lemma createEvents_loop_inv:
  "createEvents_loop e this l mode acc s = (events, s') \<Longrightarrow> fresh_events acc n s \<Longrightarrow>
   n \<le> nextRef s \<Longrightarrow>
     fresh_events events n s' \<and> (\<forall>q. apart_from_grid (maps s q) (maps s' q))
     \<and> buffer s' = buffer s
     \<and> nextRef s' = nextRef s + length (filter (\<lambda>obj. eo_mode (event_class obj) = Some mode) l)
     \<and> (\<forall>q < nextRef s. q \<notin> snd ` set acc \<longrightarrow> actors s' q = actors s q)"
proof (induction l arbitrary: acc s)
  case Nil
  then show ?case by (simp add: apart_from_grid_refl)
next
  case (Cons obj l)
  show ?case
  proof (cases "createEvent e this obj mode None s")
    case (Pair ro s1)
    show ?thesis
    proof (cases ro)
      case None
      with Pair have s1: "s1 = s" and mm: "eo_mode (event_class obj) \<noteq> Some mode"
        using createEvent_None by blast+
      from Cons.prems(1) Pair None s1
      have "createEvents_loop e this l mode acc s = (events, s')" by simp
      from Cons.IH[OF this Cons.prems(2,3)] mm show ?thesis by simp
    next
      case (Some r)
      with Pair have cs: "createEvent e this obj mode None s = (Some r, s1)" by simp
      note f = createEvent_Some[OF cs]
      let ?acc = "obj_set acc (pl_id (actors s1 r)) r"
      from Cons.prems(1) cs
      have run: "createEvents_loop e this l mode ?acc s1 = (events, s')" by simp
      have fr1: "fresh_events ?acc n s1"
        by (rule fresh_events_step[OF cs Cons.prems(2,3)])
      have n1: "n \<le> nextRef s1" using f Cons.prems(3) by simp
      note ih = Cons.IH[OF run fr1 n1]
      have sub: "snd ` set ?acc \<subseteq> insert r (snd ` set acc)"
        using obj_set_subset[of acc "pl_id (actors s1 r)" r] by force
      have "actors s' q = actors s q" if "q < nextRef s" "q \<notin> snd ` set acc" for q
      proof -
        from that f have qr: "q \<noteq> r" by simp
        with that sub have "q \<notin> snd ` set ?acc" by auto
        moreover from that f have "q < nextRef s1" by simp
        ultimately have "actors s' q = actors s1 q" using ih by blast
        with f qr show ?thesis by simp
      qed
      moreover have "\<forall>q. apart_from_grid (maps s q) (maps s' q)"
        using f ih apart_from_grid_trans by blast
      ultimately show ?thesis using ih f by simp
    qed
  qed
qed

lemma register_loop_inv:
  "register_loop this evs ret s = (ret', s') \<Longrightarrow> distinct (map snd evs) \<Longrightarrow>
     buffer s' = buffer s \<and> nextRef s' = nextRef s
     \<and> (\<forall>(k, r) \<in> set evs. onInitCalls (actors s' r) = Suc (onInitCalls (actors s r)))
     \<and> (\<forall>q. q \<notin> snd ` set evs \<longrightarrow> actors s' q = actors s q)
     \<and> (\<forall>q. q \<noteq> this \<longrightarrow> maps s' q = maps s q)
     \<and> map_id (maps s' this) = map_id (maps s this)"
proof (induction evs arbitrary: ret s)
  case Nil
  then show ?case by simp
next
  case (Cons a evs)
  obtain key r where a: "a = (key, r)" by (cases a)
  define s3 where "s3 =
    (upd_actor r (\<lambda>ev. ev\<lparr> onInitCalls := Suc (onInitCalls ev) \<rparr>)
      (upd_map this (\<lambda>m. m\<lparr> map_events := obj_set (map_events m) key r \<rparr>) s))
       \<lparr> trace := trace s @ [ExecOnInit r] \<rparr>"
  from Cons.prems(1) a
  have run: "register_loop this evs (obj_set ret key r) s3 = (ret', s')"
    by (simp add: Let_def s3_def upd_actor_def upd_map_def)
  from Cons.prems(2) a have d: "distinct (map snd evs)" and rn: "r \<notin> snd ` set evs" by auto
  note ih = Cons.IH[OF run d]
  have s3: "buffer s3 = buffer s" "nextRef s3 = nextRef s"
    "onInitCalls (actors s3 r) = Suc (onInitCalls (actors s r))"
    "\<And>q. q \<noteq> r \<Longrightarrow> actors s3 q = actors s q"
    "\<And>q. q \<noteq> this \<Longrightarrow> maps s3 q = maps s q"
    "map_id (maps s3 this) = map_id (maps s this)"
    by (simp_all add: s3_def upd_map_def upd_actor_def)
  have r': "actors s' r = actors s3 r" using ih rn by blast
  have c1: "buffer s' = buffer s" "nextRef s' = nextRef s"
    "map_id (maps s' this) = map_id (maps s this)"
    using ih s3 by simp_all
  have c2: "onInitCalls (actors s' q) = Suc (onInitCalls (actors s q))"
    if "(k, q) \<in> set (a # evs)" for k q
  proof (cases "q = r")
    case True
    with r' s3 show ?thesis by simp
  next
    case False
    with that a have "(k, q) \<in> set evs" by auto
    with ih have "onInitCalls (actors s' q) = Suc (onInitCalls (actors s3 q))" by blast
    with s3 False show ?thesis by simp
  qed
  have c3: "actors s' q = actors s q" if "q \<notin> snd ` set (a # evs)" for q
  proof -
    from that a have "q \<noteq> r" "q \<notin> snd ` set evs" by auto
    with ih s3 show ?thesis by simp
  qed
  have c4: "maps s' q = maps s q" if "q \<noteq> this" for q
    using ih s3 that by simp
  from c1 c2 c3 c4 show ?case by blast
qed


lemma obj_set_append: "k \<notin> fst ` set kvs \<Longrightarrow> obj_set kvs k v = kvs @ [(k, v)]"
  by (induction kvs) auto

lemma register_loop_registry:
  "register_loop this evs ret s = (ret', s') \<Longrightarrow> distinct (map fst evs) \<Longrightarrow>
   fst ` set evs \<inter> fst ` set ret = {} \<Longrightarrow>
     ret' = ret @ evs
     \<and> (\<forall>(k, r) \<in> set evs. obj_get (map_events (maps s' this)) k = Some r)
     \<and> (\<forall>k. k \<notin> fst ` set evs \<longrightarrow>
            obj_get (map_events (maps s' this)) k = obj_get (map_events (maps s this)) k)"
proof (induction evs arbitrary: ret s)
  case Nil
  then show ?case by simp
next
  case (Cons a evs)
  obtain key r where a: "a = (key, r)" by (cases a)
  define s3 where "s3 =
    (upd_actor r (\<lambda>ev. ev\<lparr> onInitCalls := Suc (onInitCalls ev) \<rparr>)
      (upd_map this (\<lambda>m. m\<lparr> map_events := obj_set (map_events m) key r \<rparr>) s))
       \<lparr> trace := trace s @ [ExecOnInit r] \<rparr>"
  from Cons.prems(1) a
  have run: "register_loop this evs (obj_set ret key r) s3 = (ret', s')"
    by (simp add: Let_def s3_def upd_actor_def upd_map_def)
  from Cons.prems(2) a have d: "distinct (map fst evs)" and kn: "key \<notin> fst ` set evs" by auto
  from Cons.prems(3) a have kr: "key \<notin> fst ` set ret" by auto
  then have app: "obj_set ret key r = ret @ [(key, r)]" by (rule obj_set_append)
  have disj: "fst ` set evs \<inter> fst ` set (obj_set ret key r) = {}"
    using Cons.prems(3) kn a by (auto simp: app)
  note ih = Cons.IH[OF run d disj]
  have s3: "obj_get (map_events (maps s3 this)) k
             = (if k = key then Some r else obj_get (map_events (maps s this)) k)" for k
    by (simp add: s3_def upd_map_def upd_actor_def obj_get_set)
  have c1: "ret' = ret @ a # evs" using ih app a by simp
  have c2: "obj_get (map_events (maps s' this)) k = Some q" if "(k, q) \<in> set (a # evs)" for k q
  proof (cases "(k, q) \<in> set evs")
    case True
    with ih show ?thesis by blast
  next
    case False
    with that a have kq: "k = key" "q = r" by auto
    with kn ih have "obj_get (map_events (maps s' this)) k = obj_get (map_events (maps s3 this)) k"
      by blast
    with s3 kq show ?thesis by simp
  qed
  have c3: "obj_get (map_events (maps s' this)) k = obj_get (map_events (maps s this)) k"
    if "k \<notin> fst ` set (a # evs)" for k
  proof -
    from that a have "k \<noteq> key" "k \<notin> fst ` set evs" by auto
    with ih s3 show ?thesis by simp
  qed
  from c1 c2 c3 show ?case by blast
qed

lemma createEvents_loop_all_mismatch:
  "list_all (\<lambda>obj. eo_mode (event_class obj) \<noteq> Some mode) l \<Longrightarrow>
     createEvents_loop e this l mode acc s = (acc, s)"
  by (induction l) (simp_all add: createEvent_mismatch)

lemma fresh_events_Nil: "fresh_events [] n s"
  by (simp add: fresh_events_def)

lemma createDynamicEvent_unfold:
  "createDynamicEvent e this arg s =
     (case createEvents_loop e this (events_of arg) Shared [] s of
        (events, s1) \<Rightarrow> register_loop this events [] s1)"
  by (cases arg) (simp_all add: createDynamicEvent_def createEvents_def events_of_def)

lemma createDynamicEvent_frame:
  assumes "createDynamicEvent e this arg s = (ret, s')"
  shows "buffer s' = buffer s" and "map_id (maps s' this) = map_id (maps s this)"
proof -
  obtain events s1 where ce: "createEvents_loop e this (events_of arg) Shared [] s = (events, s1)"
    by (cases "createEvents_loop e this (events_of arg) Shared [] s")
  with assms have rl: "register_loop this events [] s1 = (ret, s')"
    by (simp add: createDynamicEvent_unfold)
  note ci = createEvents_loop_inv[OF ce fresh_events_Nil order_refl]
  then have "distinct (map snd events)" by (simp add: fresh_events_def)
  note ri = register_loop_inv[OF rl this]
  show "buffer s' = buffer s" using ci ri by simp
  from ci have "apart_from_grid (maps s this) (maps s1 this)" by blast
  then have "map_id (maps s1 this) = map_id (maps s this)"
    by (simp add: apart_from_grid_fields)
  with ri show "map_id (maps s' this) = map_id (maps s this)" by simp
qed

lemma createEvents_loop_skip:
  "eo_mode (event_class obj) \<noteq> Some mode \<Longrightarrow>
   createEvents_loop e this (pre @ obj # post) mode acc s =
   createEvents_loop e this (pre @ post) mode acc s"
proof (induction pre arbitrary: acc s)
  case Nil
  then show ?case by (simp add: createEvent_mismatch)
next
  case (Cons a pre)
  then show ?case by (simp split: prod.splits option.splits)
qed

text \<open>
  Claim C2. When the mode declared by the event class differs from the mode asked for,
  \<open>createEvent\<close> returns \<open>null\<close> and changes nothing (no actor is added to the world,
  the registry of the map is as before, nothing is raised), and in a list given to
  \<open>createEvents\<close> such an element counts for nothing: alone it yields the empty object.
\<close>

theorem mode_mismatch_no_event:
  assumes "eo_mode (event_class obj) \<noteq> Some mode"
  shows "createEvent e this obj mode shape s = (None, s)
       \<and> map_events (maps (snd (createEvent e this obj mode shape s)) this)
           = map_events (maps s this)
       \<and> createEvents e this (Some (pre @ obj # post)) mode s
           = createEvents e this (Some (pre @ post)) mode s
       \<and> createEvents e this (Some [obj]) mode s = ([], s)"
proof -
  have one: "createEvent e this obj mode shape s = (None, s)"
    using assms by (rule createEvent_mismatch)
  have many: "createEvents e this (Some (pre @ obj # post)) mode s
           = createEvents e this (Some (pre @ post)) mode s"
    using createEvents_loop_skip[OF assms] by (simp add: createEvents_def)
  have alone: "createEvents e this (Some [obj]) mode s = ([], s)"
    using createEvents_loop_skip[OF assms, of e this "[]" "[]"] by (simp add: createEvents_def)
  from one many alone show ?thesis by simp
qed

text \<open>
  Claim C10. \<open>createDynamicEvent\<close> creates every event in Shared mode: its result is
  that of \<open>createEvents\<close> called with \<open>EventMode.Shared\<close> on the elements of its
  argument; it creates exactly one actor for every definition declared Shared and none
  for the others, so that a definition declared Scenario can be dropped from the list
  without changing anything; and every event it returns is registered in the map under
  its key, is a new object, and has run \<open>onInit\<close> exactly once.
\<close>

theorem createDynamicEvent_shared_only:
  "fst (createDynamicEvent e this arg s) = fst (createEvents e this (Some (events_of arg)) Shared s)
   \<and> nextRef (snd (createDynamicEvent e this arg s)) = nextRef s
         + length (filter (\<lambda>obj. eo_mode (event_class obj) = Some Shared) (events_of arg))
   \<and> list_all (\<lambda>(key, r). getEvent this key (snd (createDynamicEvent e this arg s)) = Own r
                  \<and> onInitCalls (actors (snd (createDynamicEvent e this arg s)) r) = 1
                  \<and> nextRef s \<le> r \<and> r < nextRef (snd (createDynamicEvent e this arg s)))
        (fst (createDynamicEvent e this arg s))
   \<and> (eo_mode (event_class obj) = Some Scenario \<longrightarrow>
        createDynamicEvent e this (ManyEvents (pre @ obj # post)) s
        = createDynamicEvent e this (ManyEvents (pre @ post)) s)"
proof -
  obtain ret s' where run: "createDynamicEvent e this arg s = (ret, s')"
    by (cases "createDynamicEvent e this arg s")
  obtain events s1 where ce: "createEvents_loop e this (events_of arg) Shared [] s = (events, s1)"
    by (cases "createEvents_loop e this (events_of arg) Shared [] s")
  with run have rl: "register_loop this events [] s1 = (ret, s')"
    by (simp add: createDynamicEvent_unfold)
  note ci = createEvents_loop_inv[OF ce fresh_events_Nil order_refl]
  then have fr: "fresh_events events (nextRef s) s1" by simp
  then have ds: "distinct (map snd events)" and df: "distinct (map fst events)"
    by (simp_all add: fresh_events_def)
  note ri = register_loop_inv[OF rl ds]
  have rr: "ret = [] @ events
     \<and> (\<forall>(k, r) \<in> set events. obj_get (map_events (maps s' this)) k = Some r)
     \<and> (\<forall>k. k \<notin> fst ` set events \<longrightarrow>
            obj_get (map_events (maps s' this)) k = obj_get (map_events (maps s1 this)) k)"
    by (rule register_loop_registry[OF rl df]) simp
  then have ret: "ret = events" by simp
  have c1: "ret = fst (createEvents e this (Some (events_of arg)) Shared s)"
    using ce ret by (simp add: createEvents_def)
  have c2: "nextRef s' = nextRef s
           + length (filter (\<lambda>obj. eo_mode (event_class obj) = Some Shared) (events_of arg))"
    using ci ri by simp
  have "getEvent this key s' = Own r \<and> onInitCalls (actors s' r) = 1
          \<and> nextRef s \<le> r \<and> r < nextRef s'" if "(key, r) \<in> set ret" for key r
  proof -
    from that ret have m: "(key, r) \<in> set events" by simp
    with fr have "nextRef s \<le> r \<and> r < nextRef s1 \<and> onInitCalls (actors s1 r) = 0"
      by (auto simp: fresh_events_def list_all_iff)
    moreover from m ri have "onInitCalls (actors s' r) = Suc (onInitCalls (actors s1 r))" by blast
    moreover from m rr have "obj_get (map_events (maps s' this)) key = Some r" by blast
    ultimately show ?thesis using ri by (simp add: getEvent_def obj_lookup_def)
  qed
  then have c3: "list_all (\<lambda>(key, r). getEvent this key s' = Own r \<and> onInitCalls (actors s' r) = 1
                      \<and> nextRef s \<le> r \<and> r < nextRef s') ret"
    by (auto simp: list_all_iff)
  have c4: "createDynamicEvent e this (ManyEvents (pre @ obj # post)) s
        = createDynamicEvent e this (ManyEvents (pre @ post)) s"
    if "eo_mode (event_class obj) = Some Scenario"
  proof -
    from that have "eo_mode (event_class obj) \<noteq> Some Shared" by simp
    from createEvents_loop_skip[OF this] show ?thesis
      by (simp add: createDynamicEvent_unfold events_of_def)
  qed
  from c1 c2 c3 c4 run show ?thesis by simp
qed

lemma load_cached:
  "obj_has (buffer s) (map_id (maps s this)) \<Longrightarrow> load e this s = (Done, s)"
  by (simp add: load_def)

lemma load_Done_cached:
  assumes "load e this s = (Done, s')"
  shows "obj_has (buffer s') (map_id (maps s' this))"
proof (cases "obj_has (buffer s) (map_id (maps s this))")
  case True
  with assms show ?thesis by (simp add: load_def)
next
  case False
  let ?s0 = "s\<lparr> trace := trace s @ [ParseFile this] \<rparr>"
  from assms False obtain data where pf: "parseFile e (maps ?s0 this) = Resolved data"
    by (cases "parseFile e (maps ?s0 this)") (simp_all add: load_def Let_def)
  let ?s2 = "upd_map this (loadProperties (md_properties data))
               (upd_map this (super_load data) ?s0)"
  let ?s3 = "if hasWorkers e
             then ?s2\<lparr> trace := trace ?s2 @ [WorkerLoadMap (map_id (maps ?s2 this))] \<rparr>
             else ?s2"
  let ?s4 = "?s3\<lparr> buffer := obj_set (buffer ?s3) (map_id (maps ?s3 this)) this \<rparr>"
  let ?arg = "case map_events_list (maps ?s4 this) of
                None \<Rightarrow> NoEvents | Some l \<Rightarrow> ManyEvents l"
  obtain ret s5 where cd: "createDynamicEvent e this ?arg ?s4 = (ret, s5)"
    by (cases "createDynamicEvent e this ?arg ?s4")
  note fr = createDynamicEvent_frame(1,2)[OF cd]
  have "obj_has (buffer ?s4) (map_id (maps ?s4 this))"
    by (simp add: obj_has_def obj_get_set)
  with fr have c5: "obj_has (buffer s5) (map_id (maps s5 this))" by simp
  from assms False pf cd have "s' = s5\<lparr> trace := trace s5 @ [OnLoad this] \<rparr>"
    by (simp add: load_def Let_def)
  with c5 show ?thesis by simp
qed

text \<open>
  Claim C1. After a load that succeeded, a second load of the same map returns at once
  and leaves the whole state as it was: the buffer, the map object, the actors and the
  trace of calls (no second parse, no second creation of events). This holds whatever
  the environment of the second call is, and also for another map object that carries
  the same identifier.
\<close>

theorem load_idempotent:
  assumes "fst (load e this s) = Done"
  shows "load e' this (snd (load e this s)) = (Done, snd (load e this s))
       \<and> (map_id (maps (snd (load e this s)) that) = map_id (maps (snd (load e this s)) this)
            \<longrightarrow> load e' that (snd (load e this s)) = (Done, snd (load e this s)))"
proof -
  from assms have "load e this s = (Done, snd (load e this s))"
    by (cases "load e this s") simp
  then have c: "obj_has (buffer (snd (load e this s))) (map_id (maps (snd (load e this s)) this))"
    by (rule load_Done_cached)
  then have "load e' this (snd (load e this s)) = (Done, snd (load e this s))"
    by (rule load_cached)
  moreover have "load e' that (snd (load e this s)) = (Done, snd (load e this s))"
    if "map_id (maps (snd (load e this s)) that) = map_id (maps (snd (load e this s)) this)"
    using c that by (simp add: load_cached)
  ultimately show ?thesis by simp
qed

lemma createEvent_trace: "\<exists>t. trace (snd (createEvent e this obj mode shape s)) = trace s @ t"
  by (cases obj)
     (auto simp: createEvent_def addEvent_def teleport_frame upd_actor_def Let_def
           split: prod.splits)

lemma createEvents_loop_trace:
  "\<exists>t. trace (snd (createEvents_loop e this l mode acc s)) = trace s @ t"
proof (induction l arbitrary: acc s)
  case Nil
  then show ?case by simp
next
  case (Cons obj l)
  obtain ro s1 where cs: "createEvent e this obj mode None s = (ro, s1)"
    by (cases "createEvent e this obj mode None s")
  from createEvent_trace[of e this obj mode None s] cs
  obtain t1 where t1: "trace s1 = trace s @ t1" by auto
  show ?case
  proof (cases ro)
    case None
    from Cons.IH[of acc s1] obtain t2
      where "trace (snd (createEvents_loop e this l mode acc s1)) = trace s1 @ t2" by blast
    with cs None t1 show ?thesis by simp
  next
    case (Some r)
    from Cons.IH[of "obj_set acc (pl_id (actors s1 r)) r" s1] obtain t2
      where "trace (snd (createEvents_loop e this l mode
                (obj_set acc (pl_id (actors s1 r)) r) s1)) = trace s1 @ t2" by blast
    with cs Some t1 show ?thesis by simp
  qed
qed

lemma register_loop_trace:
  "\<exists>t. trace (snd (register_loop this evs ret s)) = trace s @ t"
proof (induction evs arbitrary: ret s)
  case Nil
  then show ?case by simp
next
  case (Cons a evs)
  obtain key r where a: "a = (key, r)" by (cases a)
  define s3 where "s3 =
    (upd_actor r (\<lambda>ev. ev\<lparr> onInitCalls := Suc (onInitCalls ev) \<rparr>)
      (upd_map this (\<lambda>m. m\<lparr> map_events := obj_set (map_events m) key r \<rparr>) s))
       \<lparr> trace := trace s @ [ExecOnInit r] \<rparr>"
  have run: "register_loop this (a # evs) ret s = register_loop this evs (obj_set ret key r) s3"
    by (simp add: a Let_def s3_def upd_actor_def upd_map_def)
  from Cons.IH[of "obj_set ret key r" s3] obtain t
    where "trace (snd (register_loop this evs (obj_set ret key r) s3)) = trace s3 @ t" by blast
  with run show ?case by (simp add: s3_def)
qed

lemma createDynamicEvent_trace:
  "\<exists>t. trace (snd (createDynamicEvent e this arg s)) = trace s @ t"
proof -
  obtain events s1 where ce: "createEvents_loop e this (events_of arg) Shared [] s = (events, s1)"
    by (cases "createEvents_loop e this (events_of arg) Shared [] s")
  from createEvents_loop_trace[of e this "events_of arg" Shared "[]" s] ce
  obtain t1 where t1: "trace s1 = trace s @ t1" by auto
  from register_loop_trace[of this events "[]" s1]
  obtain t2 where "trace (snd (register_loop this events [] s1)) = trace s1 @ t2" by blast
  with ce t1 show ?thesis by (simp add: createDynamicEvent_unfold)
qed

lemma load_uncached_trace:
  assumes "\<not> obj_has (buffer s) (map_id (maps s this))"
  shows "\<exists>t. trace (snd (load e this s)) = trace s @ ParseFile this # t"
proof (cases "parseFile e (maps s this)")
  case (Resolved data)
  let ?s0 = "s\<lparr> trace := trace s @ [ParseFile this] \<rparr>"
  let ?s2 = "upd_map this (loadProperties (md_properties data))
               (upd_map this (super_load data) ?s0)"
  let ?s3 = "if hasWorkers e
             then ?s2\<lparr> trace := trace ?s2 @ [WorkerLoadMap (map_id (maps ?s2 this))] \<rparr>
             else ?s2"
  let ?s4 = "?s3\<lparr> buffer := obj_set (buffer ?s3) (map_id (maps ?s3 this)) this \<rparr>"
  let ?arg = "case map_events_list (maps ?s4 this) of
                None \<Rightarrow> NoEvents | Some l \<Rightarrow> ManyEvents l"
  obtain ret s5 where cd: "createDynamicEvent e this ?arg ?s4 = (ret, s5)"
    by (cases "createDynamicEvent e this ?arg ?s4")
  from createDynamicEvent_trace[of e this ?arg ?s4] cd
  obtain t where t: "trace s5 = trace ?s4 @ t" by auto
  have "\<exists>t4. trace ?s4 = trace s @ ParseFile this # t4"
    by (simp add: upd_map_def)
  then obtain t4 where t4: "trace ?s4 = trace s @ ParseFile this # t4" ..
  from assms Resolved cd have "snd (load e this s) = s5\<lparr> trace := trace s5 @ [OnLoad this] \<rparr>"
    by (simp add: load_def Let_def)
  with t t4 show ?thesis by simp
qed (use assms in \<open>simp_all add: load_def Let_def\<close>)

text \<open>
  When the map is not cached and the promise of \<open>parseFile\<close> is rejected (the file is
  missing or cannot be read, or the fetch fails), \<open>load\<close> is rejected, the buffer, the
  maps and the actors are untouched, the buffer still has no entry for the identifier
  of the map, and a later load parses the file again.
\<close>

theorem load_rejected_not_cached:
  assumes nc: "\<not> obj_has (buffer s) (map_id (maps s this))"
    and pf: "parseFile e (maps s this) = Rejected"
  shows "fst (load e this s) = LoadRejected
       \<and> buffer (snd (load e this s)) = buffer s
       \<and> maps (snd (load e this s)) = maps s
       \<and> actors (snd (load e this s)) = actors s
       \<and> \<not> obj_has (buffer (snd (load e this s))) (map_id (maps (snd (load e this s)) this))
       \<and> (\<exists>t. trace (snd (load e2 this (snd (load e this s))))
              = trace (snd (load e this s)) @ ParseFile this # t)"
proof -
  have l: "load e this s = (LoadRejected, s\<lparr> trace := trace s @ [ParseFile this] \<rparr>)"
    using assms by (simp add: load_def Let_def)
  have "\<not> obj_has (buffer (s\<lparr> trace := trace s @ [ParseFile this] \<rparr>))
            (map_id (maps (s\<lparr> trace := trace s @ [ParseFile this] \<rparr>) this))"
    using nc by simp
  from load_uncached_trace[OF this, of e2] l nc show ?thesis by simp
qed

lemma parseFile_malformed_json:
  assumes "\<not> isBrowser e" and "map_file m = FilePath p"
    and "readFile e (basePath e @ ''/'' @ p) = Some text" and "jsonParse e text = None"
  shows "parseFile e m = NeverSettled"
  using assms by (simp add: parseFile_def file_version_def file_string_def)

lemma parseFile_fetch_fails:
  assumes "isBrowser e" and "map_file m = FilePath p" and "fetchJson e (FilePath p) = None"
  shows "parseFile e m = Rejected"
  using assms by (simp add: parseFile_def file_version_def)

text \<open>
  Claim C8. The claim fails on the branch of \<open>parseFile\<close> that reads the file from the
  disk, when the file is there but is not JSON: \<open>JSON.parse\<close> throws inside the callback
  of \<open>fs.readFile\<close>, where no promise catches it, so the promise of \<open>parseFile\<close> is
  never settled and \<open>load\<close> is never rejected. The other half of the claim holds there:
  the buffer and the maps are untouched and the buffer has no entry for the map. On the
  branch of the browser the same failure does reject \<open>load\<close>.
\<close>

theorem load_malformed_json_never_settles:
  assumes nc: "\<not> obj_has (buffer s) (map_id (maps s this))"
    and node: "\<not> isBrowser e"
    and path: "map_file (maps s this) = FilePath p"
    and rd: "readFile e (basePath e @ ''/'' @ p) = Some text"
    and bad: "jsonParse e text = None"
  shows "parseFile e (maps s this) = NeverSettled
       \<and> fst (load e this s) = LoadNeverSettled
       \<and> fst (load e this s) \<noteq> LoadRejected
       \<and> buffer (snd (load e this s)) = buffer s
       \<and> maps (snd (load e this s)) = maps s
       \<and> \<not> obj_has (buffer (snd (load e this s))) (map_id (maps (snd (load e this s)) this))
       \<and> (isBrowser e' \<and> fetchJson e' (FilePath p) = None
            \<longrightarrow> fst (load e' this s) = LoadRejected)"
proof -
  have pf: "parseFile e (maps s this) = NeverSettled"
    using node path rd bad by (rule parseFile_malformed_json)
  have l: "load e this s = (LoadNeverSettled, s\<lparr> trace := trace s @ [ParseFile this] \<rparr>)"
    using nc pf by (simp add: load_def Let_def)
  have br: "fst (load e' this s) = LoadRejected"
    if "isBrowser e'" "fetchJson e' (FilePath p) = None"
  proof -
    have "parseFile e' (maps s this) = Rejected"
      using that(1) path that(2) by (rule parseFile_fetch_fails)
    with nc show ?thesis by (simp add: load_def Let_def)
  qed
  from pf l nc br show ?thesis by simp
qed

subsection \<open>The exit path\<close>

lemma exits_refl: "exits [] s s"
  by (simp add: exits_def)

lemma exits_trans: "exits T1 s s1 \<Longrightarrow> exits T2 s1 s2 \<Longrightarrow> exits (T1 @ T2) s s2"
  unfolding exits_def by (auto; blast)

lemma out_shapes_fst:
  "fst (out_shapes ow x shs) = map (\<lambda>sh. fst (shape_out sh x)) shs"
  by (induction shs) (simp_all add: split_beta Let_def)

lemma out_shapes_snd:
  "snd (out_shapes ow x shs) =
     concat (map (\<lambda>sh. ShapeOut ow (sh_name sh) x
                    # (if x \<in> set (playersIn sh) then [OnOutShape x (sh_name sh)] else [])) shs)"
  by (induction shs) (simp_all add: split_beta Let_def shape_out_def)

lemma shape_out_name: "sh_name (fst (shape_out sh x)) = sh_name sh"
  by (simp add: shape_out_def)

lemma shape_out_in:
  "p \<in> set (playersIn (fst (shape_out sh x))) \<longleftrightarrow> p \<in> set (playersIn sh) \<and> p \<noteq> x"
  by (auto simp: shape_out_def)

lemma out_calls: "list_all is_out_call (snd (out_shapes ow x shs))"
  by (induction shs) (simp_all add: split_beta Let_def is_out_call_def)

lemma out_calls_ShapeOut:
  "sh \<in> set shs \<Longrightarrow> ShapeOut ow (sh_name sh) x \<in> set (snd (out_shapes ow x shs))"
  by (auto simp: out_shapes_snd)

lemma out_calls_hook:
  "OnOutShape p n \<in> set (snd (out_shapes ow x shs))
     \<longleftrightarrow> p = x \<and> (\<exists>sh \<in> set shs. x \<in> set (playersIn sh) \<and> sh_name sh = n)"
  by (auto simp: out_shapes_snd)

lemma forEach_out_shapes:
  "owner_shapes ow' (forEach_out ow x s) =
     (if ow' = ow then map (\<lambda>sh. fst (shape_out sh x)) (owner_shapes ow s)
      else owner_shapes ow' s)"
  by (cases ow; cases ow')
     (auto simp: forEach_out_def owner_shapes_def getShapes_def upd_map_def upd_actor_def
        split_beta out_shapes_fst)

lemma forEach_out_trace:
  "trace (forEach_out ow x s) = trace s @ snd (out_shapes ow x (owner_shapes ow s))"
  by (cases ow) (simp_all add: forEach_out_def upd_map_def upd_actor_def split_beta)

lemma forEach_out_frame:
  "pl_id (actors (forEach_out ow x s) r) = pl_id (actors s r)"
  "map_id (maps (forEach_out ow x s) r) = map_id (maps s r)"
  "map_grid (maps (forEach_out ow x s) r) = map_grid (maps s r)"
  by (cases ow; simp add: forEach_out_def upd_map_def upd_actor_def split_beta)+

lemma pending_map_out:
  "map sh_name (filter (\<lambda>sh. p \<in> set (playersIn sh)) (map (\<lambda>sh. fst (shape_out sh x)) shs))
     = (if p = x then [] else map sh_name (filter (\<lambda>sh. p \<in> set (playersIn sh)) shs))"
  by (induction shs) (auto simp: shape_out_in shape_out_name)

lemma pending_forEach_out:
  "pending ow' (forEach_out ow x s) p =
     (if ow' = ow \<and> p = x then {} else pending ow' s p)"
proof (cases "ow' = ow")
  case True
  have "pending ow (forEach_out ow x s) p =
      set (map sh_name (filter (\<lambda>sh. p \<in> set (playersIn sh))
             (map (\<lambda>sh. fst (shape_out sh x)) (owner_shapes ow s))))"
    unfolding pending_def forEach_out_shapes by simp
  also have "\<dots> = (if p = x then {} else pending ow s p)"
    unfolding pending_map_out pending_def by simp
  finally show ?thesis using True by simp
next
  case False
  then show ?thesis by (simp add: pending_def forEach_out_shapes)
qed

lemma forEach_out_exits:
  "exits (snd (out_shapes ow x (owner_shapes ow s))) s (forEach_out ow x s)"
  unfolding exits_def
  by (auto simp: forEach_out_trace out_calls forEach_out_frame shape_names_def
        forEach_out_shapes shape_out_name o_def pending_forEach_out out_calls_hook
        split: if_splits)
     (auto simp: pending_def)


lemma exits_names: "exits T s s' \<Longrightarrow> shape_names ow s' = shape_names ow s"
  by (simp add: exits_def)

lemma exits_ids: "exits T s s' \<Longrightarrow> pl_id (actors s' r) = pl_id (actors s r)"
  by (simp add: exits_def)

lemma exits_pending_mono: "exits T s s' \<Longrightarrow> pending ow s p = {} \<Longrightarrow> pending ow s' p = {}"
  unfolding exits_def by blast

lemma forEach_out_ShapeOut:
  "n \<in> set (shape_names ow s) \<Longrightarrow>
     ShapeOut ow n x \<in> set (snd (out_shapes ow x (owner_shapes ow s)))"
  by (auto simp: shape_names_def out_shapes_snd)

lemma leave_event_exits:
  "\<exists>T. exits T s (leave_event P ev s) \<and> leave_calls P ev s T \<and> left P ev s (leave_event P ev s)"
proof -
  define x where "x = pl_id (actors s ev)"
  define s1 where "s1 = forEach_out (OfActor P) x s"
  define y where "y = pl_id (actors s1 P)"
  define s2 where "s2 = forEach_out (OfActor ev) y s1"
  define T1 where "T1 = snd (out_shapes (OfActor P) x (owner_shapes (OfActor P) s))"
  define T2 where "T2 = snd (out_shapes (OfActor ev) y (owner_shapes (OfActor ev) s1))"
  have le: "leave_event P ev s = s2"
    by (simp add: leave_event_def s2_def y_def s1_def x_def Let_def)
  have e1: "exits T1 s s1" unfolding T1_def s1_def by (rule forEach_out_exits)
  have e2: "exits T2 s1 s2" unfolding T2_def s2_def by (rule forEach_out_exits)
  have y: "y = pl_id (actors s P)" unfolding y_def by (rule exits_ids[OF e1])
  have e: "exits (T1 @ T2) s s2" by (rule exits_trans[OF e1 e2])
  have c1: "ShapeOut (OfActor P) n x \<in> set (T1 @ T2)" if "n \<in> set (shape_names (OfActor P) s)" for n
    using forEach_out_ShapeOut[OF that, of x] by (simp add: T1_def)
  have c2: "ShapeOut (OfActor ev) n y \<in> set (T1 @ T2)" if "n \<in> set (shape_names (OfActor ev) s)" for n
  proof -
    from that exits_names[OF e1] have "n \<in> set (shape_names (OfActor ev) s1)" by simp
    from forEach_out_ShapeOut[OF this, of y] show ?thesis by (simp add: T2_def)
  qed
  have p1: "pending (OfActor P) s1 x = {}" by (simp add: s1_def pending_forEach_out)
  have p1': "pending (OfActor P) s2 x = {}" by (rule exits_pending_mono[OF e2 p1])
  have p2: "pending (OfActor ev) s2 y = {}" by (simp add: s2_def pending_forEach_out)
  from e c1 c2 p1' p2 show ?thesis
    unfolding le leave_calls_def left_def x_def[symmetric] y[symmetric] by blast
qed

lemma leave_calls_frame:
  "exits T1 s s1 \<Longrightarrow> leave_calls P ev s1 T2 \<Longrightarrow> leave_calls P ev s (T1 @ T2)"
  by (simp add: leave_calls_def exits_names exits_ids)

lemma leave_calls_app: "leave_calls P ev s T1 \<Longrightarrow> leave_calls P ev s (T1 @ T2)"
  by (simp add: leave_calls_def)

lemma left_frame_before: "exits T1 s s1 \<Longrightarrow> left P ev s1 s' \<Longrightarrow> left P ev s s'"
  by (simp add: left_def exits_ids)

lemma left_frame_after: "exits T2 s1 s' \<Longrightarrow> left P ev s s1 \<Longrightarrow> left P ev s s'"
  by (simp add: left_def exits_pending_mono)

lemma fold_leave_event_exits:
  "\<exists>T. exits T s (fold (leave_event P) evs s)
       \<and> (\<forall>ev \<in> set evs. leave_calls P ev s T \<and> left P ev s (fold (leave_event P) evs s))"
proof (induction evs arbitrary: s)
  case Nil
  show ?case using exits_refl by auto
next
  case (Cons ev evs)
  define s1 where "s1 = leave_event P ev s"
  from leave_event_exits[of s P ev] obtain T1
    where e1: "exits T1 s s1" and l1: "leave_calls P ev s T1" and d1: "left P ev s s1"
    unfolding s1_def by blast
  from Cons.IH[of s1] obtain T2
    where e2: "exits T2 s1 (fold (leave_event P) evs s1)"
      and r2: "\<forall>ev' \<in> set evs. leave_calls P ev' s1 T2
                 \<and> left P ev' s1 (fold (leave_event P) evs s1)"
    by blast
  have f: "fold (leave_event P) (ev # evs) s = fold (leave_event P) evs s1"
    by (simp add: s1_def)
  have e: "exits (T1 @ T2) s (fold (leave_event P) evs s1)" by (rule exits_trans[OF e1 e2])
  have "leave_calls P ev' s (T1 @ T2) \<and> left P ev' s (fold (leave_event P) evs s1)"
    if "ev' \<in> set (ev # evs)" for ev'
  proof (cases "ev' \<in> set evs")
    case True
    with r2 have "leave_calls P ev' s1 T2" "left P ev' s1 (fold (leave_event P) evs s1)"
      by blast+
    then show ?thesis
      using leave_calls_frame[OF e1] left_frame_before[OF e1] by blast
  next
    case False
    with that have "ev' = ev" by simp
    then show ?thesis
      using leave_calls_app[OF l1] left_frame_after[OF e2 d1] by blast
  qed
  with e show ?case unfolding f by blast
qed

lemma pending_empty_iff:
  "pending ow s p = {} \<longleftrightarrow> (\<forall>sh \<in> set (owner_shapes ow s). p \<notin> set (playersIn sh))"
  by (auto simp: pending_def filter_empty_conv)

lemma pending_member:
  "sh \<in> set (owner_shapes ow s) \<Longrightarrow> p \<in> set (playersIn sh) \<Longrightarrow> sh_name sh \<in> pending ow s p"
  by (auto simp: pending_def)

lemma exits_hook:
  assumes "exits T s s'" and "pending ow s' p = {}"
    and "sh \<in> set (owner_shapes ow s)" and "p \<in> set (playersIn sh)"
  shows "OnOutShape p (sh_name sh) \<in> set T"
proof -
  from assms(1) have "pending ow s p \<subseteq> pending ow s' p \<union> {n. OnOutShape p n \<in> set T}"
    unfolding exits_def by blast
  with pending_member[OF assms(3,4)] assms(2) show ?thesis by auto
qed

text \<open>
  Claim C9. The calls \<open>onLeave\<close> adds to the trace are forced exits and the hooks they
  fire, followed by one call that clears the cells of the player, which is the last.
  Before it, every shape of the map has been asked to let the player out (and has fired
  \<open>onOutShape\<close> when the player was inside); for every object of the group, every shape
  of the player has been asked to let the object out and every shape of the object to
  let the player out, with the hook fired for whoever was inside. Afterwards the player
  is inside no shape of the map or of an object of the group, no object of the group is
  inside a shape of the player, and the grid has no cell for the player.
\<close>

theorem onLeave_exits_before_clear:
  "\<exists>T. trace (onLeave e this player s)
         = trace s @ T @ [ClearObjectInCells this (pl_id (actors s player))]
     \<and> list_all is_out_call T
     \<and> (\<forall>sh \<in> set (getShapes (maps s this)).
           ShapeOut (OfMap this) (sh_name sh) (pl_id (actors s player)) \<in> set T
           \<and> (pl_id (actors s player) \<in> set (playersIn sh)
                \<longrightarrow> OnOutShape (pl_id (actors s player)) (sh_name sh) \<in> set T))
     \<and> (\<forall>ev \<in> set (getObjectsOfGroup e (map_id (maps s this)) player).
           (\<forall>sh \<in> set (pl_shapes (actors s player)).
              ShapeOut (OfActor player) (sh_name sh) (pl_id (actors s ev)) \<in> set T
              \<and> (pl_id (actors s ev) \<in> set (playersIn sh)
                   \<longrightarrow> OnOutShape (pl_id (actors s ev)) (sh_name sh) \<in> set T))
           \<and> (\<forall>sh \<in> set (pl_shapes (actors s ev)).
              ShapeOut (OfActor ev) (sh_name sh) (pl_id (actors s player)) \<in> set T
              \<and> (pl_id (actors s player) \<in> set (playersIn sh)
                   \<longrightarrow> OnOutShape (pl_id (actors s player)) (sh_name sh) \<in> set T))
           \<and> (\<forall>sh \<in> set (pl_shapes (actors (onLeave e this player s) ev)).
                 pl_id (actors s player) \<notin> set (playersIn sh))
           \<and> (\<forall>sh \<in> set (pl_shapes (actors (onLeave e this player s) player)).
                 pl_id (actors s ev) \<notin> set (playersIn sh)))
     \<and> (\<forall>sh \<in> set (getShapes (maps (onLeave e this player s) this)).
           pl_id (actors s player) \<notin> set (playersIn sh))
     \<and> obj_get (map_grid (maps (onLeave e this player s) this)) (pl_id (actors s player)) = None"
proof -
  define pid where "pid = pl_id (actors s player)"
  define s1 where "s1 = forEach_out (OfMap this) pid s"
  define T1 where "T1 = snd (out_shapes (OfMap this) pid (owner_shapes (OfMap this) s))"
  define group where "group = getObjectsOfGroup e (map_id (maps s this)) player"
  define s2 where "s2 = fold (leave_event player) group s1"
  define s3 where "s3 = clearObjectInCells this pid s2"
  have e1: "exits T1 s s1" unfolding T1_def s1_def by (rule forEach_out_exits)
  from fold_leave_event_exits[of s1 player group] obtain T2
    where e2: "exits T2 s1 s2"
      and r2: "\<forall>ev \<in> set group. leave_calls player ev s1 T2 \<and> left player ev s1 s2"
    unfolding s2_def by blast
  have e: "exits (T1 @ T2) s s2" by (rule exits_trans[OF e1 e2])
  have g: "getObjectsOfGroup e (map_id (maps s1 this)) player = group"
    using e1 by (simp add: group_def exits_def)
  have ol: "onLeave e this player s = s3"
    by (simp add: onLeave_def Let_def pid_def[symmetric] s1_def[symmetric] g
          s2_def[symmetric] exits_ids[OF e] s3_def)
  have tr: "trace s3 = trace s @ (T1 @ T2) @ [ClearObjectInCells this pid]"
    using e by (simp add: s3_def clearObjectInCells_def upd_map_def exits_def)
  have sh3: "owner_shapes ow s3 = owner_shapes ow s2" for ow
    by (cases ow)
       (simp_all add: s3_def clearObjectInCells_def upd_map_def owner_shapes_def getShapes_def)
  have pend3: "pending ow s3 p = pending ow s2 p" for ow p
    by (simp add: pending_def sh3)
  have grid: "obj_get (map_grid (maps s3 this)) pid = None"
    by (simp add: s3_def clearObjectInCells_def upd_map_def obj_get_delete)
  have calls: "list_all is_out_call (T1 @ T2)" using e by (simp add: exits_def)
  have pm1: "pending (OfMap this) s1 pid = {}" by (simp add: s1_def pending_forEach_out)
  have pm2: "pending (OfMap this) s2 pid = {}" by (rule exits_pending_mono[OF e2 pm1])
  have ms: "owner_shapes (OfMap this) s = getShapes (maps s this)"
    "owner_shapes (OfMap this) s3 = getShapes (maps s3 this)"
    "\<And>r. owner_shapes (OfActor r) s = pl_shapes (actors s r)"
    "\<And>r. owner_shapes (OfActor r) s3 = pl_shapes (actors s3 r)"
    by (simp_all add: owner_shapes_def)
  have c_map: "ShapeOut (OfMap this) (sh_name sh) pid \<in> set (T1 @ T2)
       \<and> (pid \<in> set (playersIn sh) \<longrightarrow> OnOutShape pid (sh_name sh) \<in> set (T1 @ T2))"
    if "sh \<in> set (getShapes (maps s this))" for sh
  proof -
    from that have m: "sh \<in> set (owner_shapes (OfMap this) s)" by (simp add: ms)
    then have "ShapeOut (OfMap this) (sh_name sh) pid \<in> set T1"
      by (simp add: T1_def out_calls_ShapeOut)
    moreover have "OnOutShape pid (sh_name sh) \<in> set (T1 @ T2)" if "pid \<in> set (playersIn sh)"
      by (rule exits_hook[OF e pm2 m that])
    ultimately show ?thesis by simp
  qed
  have c_map_after: "pid \<notin> set (playersIn sh)" if "sh \<in> set (getShapes (maps s3 this))" for sh
    using pm2 that by (simp add: pend3[symmetric] pending_empty_iff ms)
  have c_ev: "(\<forall>sh \<in> set (pl_shapes (actors s player)).
              ShapeOut (OfActor player) (sh_name sh) (pl_id (actors s ev)) \<in> set (T1 @ T2)
              \<and> (pl_id (actors s ev) \<in> set (playersIn sh)
                   \<longrightarrow> OnOutShape (pl_id (actors s ev)) (sh_name sh) \<in> set (T1 @ T2)))
           \<and> (\<forall>sh \<in> set (pl_shapes (actors s ev)).
              ShapeOut (OfActor ev) (sh_name sh) pid \<in> set (T1 @ T2)
              \<and> (pid \<in> set (playersIn sh) \<longrightarrow> OnOutShape pid (sh_name sh) \<in> set (T1 @ T2)))
           \<and> (\<forall>sh \<in> set (pl_shapes (actors s3 ev)). pid \<notin> set (playersIn sh))
           \<and> (\<forall>sh \<in> set (pl_shapes (actors s3 player)). pl_id (actors s ev) \<notin> set (playersIn sh))"
    if "ev \<in> set group" for ev
  proof -
    from r2 that have lc: "leave_calls player ev s1 T2" and lf: "left player ev s1 s2" by blast+
    have lc': "leave_calls player ev s (T1 @ T2)" by (rule leave_calls_frame[OF e1 lc])
    have lf': "left player ev s s2" by (rule left_frame_before[OF e1 lf])
    then have pe: "pending (OfActor ev) s2 pid = {}"
      and pp: "pending (OfActor player) s2 (pl_id (actors s ev)) = {}"
      by (simp_all add: left_def pid_def)
    have a: "ShapeOut (OfActor player) (sh_name sh) (pl_id (actors s ev)) \<in> set (T1 @ T2)
              \<and> (pl_id (actors s ev) \<in> set (playersIn sh)
                   \<longrightarrow> OnOutShape (pl_id (actors s ev)) (sh_name sh) \<in> set (T1 @ T2))"
      if "sh \<in> set (pl_shapes (actors s player))" for sh
    proof -
      from that have m: "sh \<in> set (owner_shapes (OfActor player) s)" by (simp add: ms)
      then have "sh_name sh \<in> set (shape_names (OfActor player) s)"
        by (simp add: shape_names_def)
      with lc' have "ShapeOut (OfActor player) (sh_name sh) (pl_id (actors s ev)) \<in> set (T1 @ T2)"
        unfolding leave_calls_def by blast
      moreover have "OnOutShape (pl_id (actors s ev)) (sh_name sh) \<in> set (T1 @ T2)"
        if "pl_id (actors s ev) \<in> set (playersIn sh)"
        by (rule exits_hook[OF e pp m that])
      ultimately show ?thesis by simp
    qed
    have b: "ShapeOut (OfActor ev) (sh_name sh) pid \<in> set (T1 @ T2)
              \<and> (pid \<in> set (playersIn sh) \<longrightarrow> OnOutShape pid (sh_name sh) \<in> set (T1 @ T2))"
      if "sh \<in> set (pl_shapes (actors s ev))" for sh
    proof -
      from that have m: "sh \<in> set (owner_shapes (OfActor ev) s)" by (simp add: ms)
      then have "sh_name sh \<in> set (shape_names (OfActor ev) s)"
        by (simp add: shape_names_def)
      with lc' have "ShapeOut (OfActor ev) (sh_name sh) pid \<in> set (T1 @ T2)"
        unfolding leave_calls_def pid_def by blast
      moreover have "OnOutShape pid (sh_name sh) \<in> set (T1 @ T2)" if "pid \<in> set (playersIn sh)"
        by (rule exits_hook[OF e pe m that])
      ultimately show ?thesis by simp
    qed
    have c: "\<forall>sh \<in> set (pl_shapes (actors s3 ev)). pid \<notin> set (playersIn sh)"
      using pe by (simp add: pend3[symmetric] pending_empty_iff ms)
    have d: "\<forall>sh \<in> set (pl_shapes (actors s3 player)). pl_id (actors s ev) \<notin> set (playersIn sh)"
      using pp by (simp add: pend3[symmetric] pending_empty_iff ms)
    from a b c d show ?thesis by blast
  qed
  show ?thesis
    unfolding ol pid_def[symmetric] group_def[symmetric]
    using tr calls c_map c_ev c_map_after grid by blast
qed

section \<open>Properties of the spatial core\<close>

subsection \<open>The bounding region\<close>

lemma covers_refl: "covers A A"
  by (simp add: covers_def)

lemma covers_trans: "covers A B \<Longrightarrow> covers B C \<Longrightarrow> covers A C"
  by (auto simp: covers_def)

lemma covers_union1: "covers (box_union A B) A"
  by (simp add: covers_def box_union_def)

lemma covers_union2: "covers (box_union A B) B"
  by (simp add: covers_def box_union_def)

lemma covers_union_least: "covers C A \<Longrightarrow> covers C B \<Longrightarrow> covers C (box_union A B)"
  by (simp add: covers_def box_union_def)

lemma fold_union_covers_acc:
  "covers (fold (\<lambda>sh acc. box_union acc (f sh)) shs acc) acc"
proof (induction shs arbitrary: acc)
  case Nil
  show ?case by (simp add: covers_refl)
next
  case (Cons sh shs)
  have "covers (fold (\<lambda>sh acc. box_union acc (f sh)) shs (box_union acc (f sh))) (box_union acc (f sh))"
    by (rule Cons.IH)
  then show ?case using covers_trans covers_union1 by fastforce
qed

lemma fold_union_covers_shape:
  "sh \<in> set shs \<Longrightarrow> covers (fold (\<lambda>sh acc. box_union acc (f sh)) shs acc) (f sh)"
proof (induction shs arbitrary: acc)
  case Nil
  then show ?case by simp
next
  case (Cons x shs)
  show ?case
  proof (cases "sh = x")
    case True
    have "covers (fold (\<lambda>sh acc. box_union acc (f sh)) shs (box_union acc (f x))) (box_union acc (f x))"
      by (rule fold_union_covers_acc)
    with True show ?thesis using covers_trans covers_union2 by fastforce
  next
    case False
    with Cons.prems have "sh \<in> set shs" by simp
    from Cons.IH[OF this] show ?thesis by simp
  qed
qed

lemma fold_union_least:
  "covers B acc \<Longrightarrow> (\<forall>sh \<in> set shs. covers B (f sh)) \<Longrightarrow>
     covers B (fold (\<lambda>sh acc. box_union acc (f sh)) shs acc)"
  by (induction shs arbitrary: acc) (simp_all add: covers_union_least)

text \<open>
  Claim C4. \<open>getSizeMaxShape\<close> is the smallest rectangle that covers the hitbox and
  every attached shape: it covers each of them, and every rectangle that covers them
  all covers it. With no attachment it is the hitbox at the position of the actor. The
  min corner of a centred shape is the centre of the hitbox minus half the size of the
  shape. For the hitbox 32 by 32 at the origin the result is (0, 0, 32, 32); for the
  hitbox 10 by 10 at (200, 200) with a centred shape 100 by 100 it is (155, 155, 255,
  255), and with a second centred shape 50 by 200 it is (155, 105, 255, 305).
\<close>

theorem getSizeMaxShape_smallest_cover:
  "covers (getSizeMaxShape a) (hitbox_box a)
   \<and> (\<forall>sh \<in> set (ac_shapes a). covers (getSizeMaxShape a) (shape_box a sh))
   \<and> (covers B (hitbox_box a) \<and> (\<forall>sh \<in> set (ac_shapes a). covers B (shape_box a sh))
        \<longrightarrow> covers B (getSizeMaxShape a))
   \<and> (ac_shapes a = [] \<longrightarrow> getSizeMaxShape a = hitbox_box a)
   \<and> (at_positioning sh = Center \<longrightarrow>
        minX (shape_box a sh)
          = (of_int (ac_x a) + of_int (hb_width a) / 2) - of_int (at_width sh) / 2
        \<and> minY (shape_box a sh)
          = (of_int (ac_y a) + of_int (hb_height a) / 2) - of_int (at_height sh) / 2)
   \<and> (ac_x a = 0 \<and> ac_y a = 0 \<and> hb_width a = 32 \<and> hb_height a = 32 \<and> ac_shapes a = []
        \<longrightarrow> getSizeMaxShape a = \<lparr> minX = 0, minY = 0, maxX = 32, maxY = 32 \<rparr>)
   \<and> (ac_x a = 200 \<and> ac_y a = 200 \<and> hb_width a = 10 \<and> hb_height a = 10
        \<and> ac_shapes a = [\<lparr> at_width = 100, at_height = 100, at_positioning = Center \<rparr>]
        \<longrightarrow> getSizeMaxShape a = \<lparr> minX = 155, minY = 155, maxX = 255, maxY = 255 \<rparr>)
   \<and> (ac_x a = 200 \<and> ac_y a = 200 \<and> hb_width a = 10 \<and> hb_height a = 10
        \<and> ac_shapes a = [\<lparr> at_width = 100, at_height = 100, at_positioning = Center \<rparr>,
                         \<lparr> at_width = 50, at_height = 200, at_positioning = Center \<rparr>]
        \<longrightarrow> getSizeMaxShape a = \<lparr> minX = 155, minY = 105, maxX = 255, maxY = 305 \<rparr>)"
proof -
  have c1: "covers (getSizeMaxShape a) (hitbox_box a)"
    unfolding getSizeMaxShape_def by (rule fold_union_covers_acc)
  have c2: "\<forall>sh \<in> set (ac_shapes a). covers (getSizeMaxShape a) (shape_box a sh)"
    unfolding getSizeMaxShape_def by (simp add: fold_union_covers_shape)
  have c3: "covers B (hitbox_box a) \<and> (\<forall>sh \<in> set (ac_shapes a). covers B (shape_box a sh))
        \<longrightarrow> covers B (getSizeMaxShape a)"
    unfolding getSizeMaxShape_def by (simp add: fold_union_least)
  have c4: "ac_shapes a = [] \<longrightarrow> getSizeMaxShape a = hitbox_box a"
    by (simp add: getSizeMaxShape_def)
  have c5: "at_positioning sh = Center \<longrightarrow>
        minX (shape_box a sh)
          = (of_int (ac_x a) + of_int (hb_width a) / 2) - of_int (at_width sh) / 2
        \<and> minY (shape_box a sh)
          = (of_int (ac_y a) + of_int (hb_height a) / 2) - of_int (at_height sh) / 2"
    by (simp add: shape_box_def Let_def)
  have c6: "ac_x a = 0 \<and> ac_y a = 0 \<and> hb_width a = 32 \<and> hb_height a = 32 \<and> ac_shapes a = []
        \<longrightarrow> getSizeMaxShape a = \<lparr> minX = 0, minY = 0, maxX = 32, maxY = 32 \<rparr>"
    by (simp add: getSizeMaxShape_def hitbox_box_def)
  have c7: "ac_x a = 200 \<and> ac_y a = 200 \<and> hb_width a = 10 \<and> hb_height a = 10
        \<and> ac_shapes a = [\<lparr> at_width = 100, at_height = 100, at_positioning = Center \<rparr>]
        \<longrightarrow> getSizeMaxShape a = \<lparr> minX = 155, minY = 155, maxX = 255, maxY = 255 \<rparr>"
    by (simp add: getSizeMaxShape_def hitbox_box_def shape_box_def box_union_def Let_def)
  have c8: "ac_x a = 200 \<and> ac_y a = 200 \<and> hb_width a = 10 \<and> hb_height a = 10
        \<and> ac_shapes a = [\<lparr> at_width = 100, at_height = 100, at_positioning = Center \<rparr>,
                         \<lparr> at_width = 50, at_height = 200, at_positioning = Center \<rparr>]
        \<longrightarrow> getSizeMaxShape a = \<lparr> minX = 155, minY = 105, maxX = 255, maxY = 305 \<rparr>"
    by (simp add: getSizeMaxShape_def hitbox_box_def shape_box_def box_union_def Let_def)
  from c1 c2 c3 c4 c5 c6 c7 c8 show ?thesis by blast
qed

subsection \<open>The trigger detector\<close>

lemma overlap_set_distinct:
  "distinct (map tr_name shapes) \<Longrightarrow> distinct (overlap_set shapes B)"
  by (simp add: overlap_set_def distinct_map_filter)

lemma about_In: "about pid n (OnInShape pid k) \<longleftrightarrow> k = n"
  by (auto simp: about_def)

lemma about_Out: "about pid n (OnOutShape pid k) \<longleftrightarrow> k = n"
  by (auto simp: about_def)

lemma filter_about_In:
  "distinct xs \<Longrightarrow> filter (about pid n) (map (OnInShape pid) xs)
     = (if n \<in> set xs then [OnInShape pid n] else [])"
  by (induction xs) (auto simp: about_In)

lemma filter_about_Out:
  "distinct xs \<Longrightarrow> filter (about pid n) (map (OnOutShape pid) xs)
     = (if n \<in> set xs then [OnOutShape pid n] else [])"
  by (induction xs) (auto simp: about_Out)

lemma fire_about:
  assumes "distinct (map tr_name shapes)" and "distinct prev"
  shows "filter (about pid n) (fire pid (fst (evaluate shapes B prev)))
     = transitions pid n (n \<in> set prev) [n \<in> set (overlap_set shapes B)]"
proof -
  have d: "distinct (overlap_set shapes B)" using assms(1) by (rule overlap_set_distinct)
  show ?thesis
    using d assms(2)
    by (auto simp: fire_def evaluate_def Let_def filter_about_In filter_about_Out)
qed

lemma commits_about:
  "list_all (\<lambda>(shapes, B). distinct (map tr_name shapes)) steps \<Longrightarrow> distinct prev \<Longrightarrow>
     filter (about pid n) (fst (commits pid steps prev))
       = transitions pid n (n \<in> set prev)
           (map (\<lambda>(shapes, B). n \<in> set (overlap_set shapes B)) steps)"
proof (induction steps arbitrary: prev)
  case Nil
  then show ?case by simp
next
  case (Cons st steps)
  obtain shapes B where st: "st = (shapes, B)" by (cases st)
  from Cons.prems(1) st have ds: "distinct (map tr_name shapes)"
    and rest: "list_all (\<lambda>(shapes, B). distinct (map tr_name shapes)) steps"
    by simp_all
  have d: "distinct (overlap_set shapes B)" using ds by (rule overlap_set_distinct)
  have new: "snd (evaluate shapes B prev) = overlap_set shapes B"
    by (simp add: evaluate_def Let_def)
  have "fst (commits pid (st # steps) prev)
      = fire pid (fst (evaluate shapes B prev)) @ fst (commits pid steps (overlap_set shapes B))"
    by (simp add: st split_beta Let_def new)
  then have "filter (about pid n) (fst (commits pid (st # steps) prev))
      = transitions pid n (n \<in> set prev) [n \<in> set (overlap_set shapes B)]
        @ transitions pid n (n \<in> set (overlap_set shapes B))
            (map (\<lambda>(shapes, B). n \<in> set (overlap_set shapes B)) steps)"
    using fire_about[OF ds Cons.prems(2), of pid n B] Cons.IH[OF rest d] by simp
  then show ?case by (simp add: st)
qed

lemma count_list_map_inj:
  "distinct xs \<Longrightarrow> inj f \<Longrightarrow> count_list (map f xs) (f n) = (if n \<in> set xs then 1 else 0)"
  by (induction xs) (auto simp: inj_def)

lemma count_list_map_other: "(\<And>x. f x \<noteq> c) \<Longrightarrow> count_list (map f xs) c = 0"
  by (induction xs) auto

text \<open>
  Claim C5. With shapes of distinct names: the shapes entered are those of the new
  overlap set that are not in the previous one, the shapes left are those of the previous
  set that are not in the new one; an evaluation fires the enter hook of a shape once
  when the shape is entered and never otherwise, and the exit hook once when it is left
  and never otherwise; when the overlap set has not changed nothing fires; and over any
  sequence of position commits (each with the shapes registered then, of distinct
  names) the hooks about one shape are exactly one per change of the overlap with that
  shape, so that commits inside the same shape add nothing.
\<close>

theorem trigger_fires_once_per_transition:
  assumes "distinct (map tr_name shapes)" and "distinct prev"
    and "list_all (\<lambda>(shapes, B). distinct (map tr_name shapes)) steps"
  shows "set (fst (fst (evaluate shapes B prev))) = set (overlap_set shapes B) - set prev
       \<and> set (snd (fst (evaluate shapes B prev))) = set prev - set (overlap_set shapes B)
       \<and> count_list (fire pid (fst (evaluate shapes B prev))) (OnInShape pid n)
           = (if n \<in> set (overlap_set shapes B) - set prev then 1 else 0)
       \<and> count_list (fire pid (fst (evaluate shapes B prev))) (OnOutShape pid n)
           = (if n \<in> set prev - set (overlap_set shapes B) then 1 else 0)
       \<and> (set (overlap_set shapes B) = set prev \<longrightarrow> fire pid (fst (evaluate shapes B prev)) = [])
       \<and> filter (about pid n) (fst (commits pid steps prev))
           = transitions pid n (n \<in> set prev)
               (map (\<lambda>(shapes, B). n \<in> set (overlap_set shapes B)) steps)"
proof -
  have d: "distinct (overlap_set shapes B)" using assms(1) by (rule overlap_set_distinct)
  have e1: "set (fst (fst (evaluate shapes B prev))) = set (overlap_set shapes B) - set prev"
    by (auto simp: evaluate_def Let_def)
  have e2: "set (snd (fst (evaluate shapes B prev))) = set prev - set (overlap_set shapes B)"
    by (auto simp: evaluate_def Let_def)
  have de: "distinct (fst (fst (evaluate shapes B prev)))" "distinct (snd (fst (evaluate shapes B prev)))"
    using d assms(2) by (simp_all add: evaluate_def Let_def)
  have i1: "inj (OnInShape pid)" and i2: "inj (OnOutShape pid)" by (simp_all add: inj_def)
  have c1: "count_list (fire pid (fst (evaluate shapes B prev))) (OnInShape pid n)
           = (if n \<in> set (overlap_set shapes B) - set prev then 1 else 0)"
    using count_list_map_inj[OF de(1) i1, of n]
      count_list_map_other[of "OnOutShape pid" "OnInShape pid n" "snd (fst (evaluate shapes B prev))"]
    by (simp add: fire_def e1)
  have c2: "count_list (fire pid (fst (evaluate shapes B prev))) (OnOutShape pid n)
           = (if n \<in> set prev - set (overlap_set shapes B) then 1 else 0)"
    using count_list_map_inj[OF de(2) i2, of n]
      count_list_map_other[of "OnInShape pid" "OnOutShape pid n" "fst (fst (evaluate shapes B prev))"]
    by (simp add: fire_def e2)
  have c3: "set (overlap_set shapes B) = set prev \<longrightarrow> fire pid (fst (evaluate shapes B prev)) = []"
    by (simp add: fire_def evaluate_def Let_def filter_empty_conv)
  from e1 e2 c1 c2 c3 commits_about[OF assms(3,2)] show ?thesis by blast
qed

subsection \<open>Movement stays on the map\<close>

lemma getSizeMaxShape_cong:
  assumes "ac_x a = ac_x b" and "ac_y a = ac_y b" and "hb_width a = hb_width b"
    and "hb_height a = hb_height b" and "ac_shapes a = ac_shapes b"
  shows "getSizeMaxShape a = getSizeMaxShape b"
proof -
  have "shape_box a = shape_box b"
    using assms by (intro ext) (simp add: shape_box_def split: ShapePositioning.split)
  moreover have "hitbox_box a = hitbox_box b"
    using assms by (simp add: hitbox_box_def)
  ultimately show ?thesis using assms(5) by (simp add: getSizeMaxShape_def)
qed

lemma valid_at_cong:
  "ac_x a = ac_x b \<Longrightarrow> ac_y a = ac_y b \<Longrightarrow> hb_width a = hb_width b \<Longrightarrow>
   hb_height a = hb_height b \<Longrightarrow> ac_shapes a = ac_shapes b \<Longrightarrow>
     valid_at m a = valid_at m b"
  unfolding valid_at_def by (simp add: getSizeMaxShape_cong[of a b])

lemma covers_hitbox: "covers (getSizeMaxShape a) (hitbox_box a)"
  unfolding getSizeMaxShape_def by (rule fold_union_covers_acc)

lemma valid_at_in_map:
  assumes "valid_at m a" and "0 \<le> hb_width a" and "0 \<le> hb_height a"
  shows "in_map m a"
proof -
  let ?B = "getSizeMaxShape a"
  from covers_hitbox[of a]
  have c: "minX ?B \<le> of_int (ac_x a)" "minY ?B \<le> of_int (ac_y a)"
    "of_int (ac_x a + hb_width a) \<le> maxX ?B" "of_int (ac_y a + hb_height a) \<le> maxY ?B"
    by (simp_all add: covers_def hitbox_box_def)
  from assms(1)
  have b: "0 \<le> minX ?B" "0 \<le> minY ?B" "maxX ?B \<le> of_int (widthPx m)"
    "maxY ?B \<le> of_int (heightPx m)"
    by (simp_all add: valid_at_def in_bounds_def)
  have "(0::rat) \<le> of_int (ac_x a)" using c(1) b(1) by linarith
  then have x0: "0 \<le> ac_x a" by simp
  have "(0::rat) \<le> of_int (ac_y a)" using c(2) b(2) by linarith
  then have y0: "0 \<le> ac_y a" by simp
  have "(of_int (ac_x a + hb_width a) :: rat) \<le> of_int (widthPx m)" using c(3) b(3) by linarith
  then have "ac_x a + hb_width a \<le> widthPx m" by (simp only: of_int_le_iff)
  with assms(2) have x1: "ac_x a \<le> widthPx m" by linarith
  have "(of_int (ac_y a + hb_height a) :: rat) \<le> of_int (heightPx m)" using c(4) b(4) by linarith
  then have "ac_y a + hb_height a \<le> heightPx m" by (simp only: of_int_le_iff)
  with assms(3) have y1: "ac_y a \<le> heightPx m" by linarith
  from x0 x1 y0 y1 show ?thesis by (simp add: in_map_def)
qed

lemma valid_at_nonneg: "valid_at m a \<Longrightarrow> 0 \<le> ac_x a \<and> 0 \<le> ac_y a"
proof -
  assume v: "valid_at m a"
  let ?B = "getSizeMaxShape a"
  from covers_hitbox[of a]
  have c: "minX ?B \<le> of_int (ac_x a)" "minY ?B \<le> of_int (ac_y a)"
    by (simp_all add: covers_def hitbox_box_def)
  from v have b: "0 \<le> minX ?B" "0 \<le> minY ?B" by (simp_all add: valid_at_def in_bounds_def)
  have "(0::rat) \<le> of_int (ac_x a)" "(0::rat) \<le> of_int (ac_y a)" using c b by linarith+
  then show ?thesis by simp
qed

lemma same_body_refl: "same_body a a"
  by (simp add: same_body_def)

lemma same_body_trans: "same_body a b \<Longrightarrow> same_body b c \<Longrightarrow> same_body a c"
  by (simp add: same_body_def)

lemma slide_result:
  "same_body a (slide m a d n) \<and> (valid_at m (slide m a d n)
     \<or> (ac_x (slide m a d n) = ac_x a \<and> ac_y (slide m a d n) = ac_y a))"
proof (induction n arbitrary: a)
  case 0
  show ?case by (simp add: same_body_refl)
next
  case (Suc n)
  show ?case
  proof (cases "valid_at m (displace a d 1)")
    case True
    let ?b = "displace a d 1"
    let ?r = "slide m ?b d n"
    have sb: "same_body a ?b" by (simp add: same_body_def displace_def)
    from Suc.IH[of ?b]
    have sr: "same_body ?b ?r" and alt: "valid_at m ?r \<or> (ac_x ?r = ac_x ?b \<and> ac_y ?r = ac_y ?b)"
      by blast+
    have "valid_at m ?r"
    proof (cases "valid_at m ?r")
      case False
      with alt have "ac_x ?r = ac_x ?b" "ac_y ?r = ac_y ?b" by blast+
      with sr have "valid_at m ?r = valid_at m ?b"
        by (intro valid_at_cong) (simp_all add: same_body_def)
      with True show ?thesis by simp
    qed
    with True sb sr show ?thesis by (auto intro: same_body_trans)
  next
    case False
    then show ?thesis by (simp add: same_body_refl)
  qed
qed

lemma steady_step:
  assumes "steady m a"
  shows "steady m (directional_step m a dir) \<and> same_body a (directional_step m a dir)"
proof -
  define a1 where "a1 = a\<lparr> ac_direction := dir \<rparr>"
  define dest where "dest = displace a1 (vec dir) (ac_speed a1)"
  define d where "d = (sgn (ac_speed a1) * fst (vec dir), sgn (ac_speed a1) * snd (vec dir))"
  have sb1: "same_body a a1" by (simp add: same_body_def a1_def)
  have st1: "steady m a1" using assms by (simp add: steady_def in_map_def a1_def)
  have ds: "directional_step m a dir
      = (if valid_at m dest then dest else slide m a1 d (nat \<bar>ac_speed a1\<bar>))"
    by (simp add: directional_step_def Let_def a1_def dest_def d_def)
  show ?thesis
  proof (cases "valid_at m dest")
    case True
    have sb: "same_body a dest" by (simp add: same_body_def dest_def displace_def a1_def)
    then have "0 \<le> hb_width dest" "0 \<le> hb_height dest"
      using assms by (simp_all add: steady_def same_body_def)
    from valid_at_in_map[OF True this] this sb ds True show ?thesis by (simp add: steady_def)
  next
    case False
    let ?r = "slide m a1 d (nat \<bar>ac_speed a1\<bar>)"
    from slide_result[of a1 m d "nat \<bar>ac_speed a1\<bar>"]
    have sb: "same_body a1 ?r"
      and alt: "valid_at m ?r \<or> (ac_x ?r = ac_x a1 \<and> ac_y ?r = ac_y a1)" by blast+
    have hb: "0 \<le> hb_width ?r" "0 \<le> hb_height ?r"
      using sb st1 by (simp_all add: steady_def same_body_def)
    have "in_map m ?r"
    proof (cases "valid_at m ?r")
      case True
      from valid_at_in_map[OF True hb] show ?thesis .
    next
      case False
      with alt have "ac_x ?r = ac_x a1" "ac_y ?r = ac_y a1" by blast+
      with st1 show ?thesis by (simp add: steady_def in_map_def)
    qed
    with hb sb sb1 ds False show ?thesis by (auto simp: steady_def intro: same_body_trans)
  qed
qed

lemma steady_repeat:
  "steady m a \<Longrightarrow> steady m (repeat_step m a dir n) \<and> same_body a (repeat_step m a dir n)"
proof (induction n arbitrary: a)
  case 0
  then show ?case by (simp add: same_body_refl)
next
  case (Suc n)
  from steady_step[OF Suc.prems, of dir]
  have s1: "steady m (directional_step m a dir)" and b1: "same_body a (directional_step m a dir)"
    by blast+
  from Suc.IH[OF s1] b1 show ?case by (auto intro: same_body_trans)
qed

lemma steady_tile_loop:
  "steady m a \<Longrightarrow> tile_loop m fuel a dir = Some a' \<Longrightarrow> steady m a' \<and> same_body a a'"
proof (induction fuel arbitrary: a)
  case 0
  then show ?case by simp
next
  case (Suc fuel)
  from steady_step[OF Suc.prems(1), of dir]
  have s1: "steady m (directional_step m a dir)" and b1: "same_body a (directional_step m a dir)"
    by blast+
  show ?case
  proof (cases "aligned m (directional_step m a dir) dir")
    case True
    with Suc.prems(2) have "a' = directional_step m a dir" by (simp add: Let_def)
    with s1 b1 show ?thesis by simp
  next
    case False
    with Suc.prems(2) have "tile_loop m fuel (directional_step m a dir) dir = Some a'"
      by (simp add: Let_def)
    from Suc.IH[OF s1 this] b1 show ?thesis by (auto intro: same_body_trans)
  qed
qed

lemma steady_tile_step:
  "steady m a \<Longrightarrow> tile_step m fuel a dir n = Some a' \<Longrightarrow> steady m a' \<and> same_body a a'"
proof (induction n arbitrary: a)
  case 0
  then show ?case by (simp add: same_body_refl)
next
  case (Suc n)
  from Suc.prems(2) obtain b where tl: "tile_loop m fuel a dir = Some b"
    and ts: "tile_step m fuel b dir n = Some a'"
    by (auto split: option.splits)
  from steady_tile_loop[OF Suc.prems(1) tl] have sb: "steady m b" "same_body a b" by blast+
  from Suc.IH[OF sb(1) ts] sb(2) show ?case by (auto intro: same_body_trans)
qed

lemma steady_advance:
  assumes "steady m a" and "advance m fuel a c = Some a'"
  shows "steady m a' \<and> same_body a a'"
proof (cases c)
  case (Step dir)
  with assms steady_step[OF assms(1), of dir] show ?thesis by auto
next
  case (RepeatStep dir n)
  with assms steady_repeat[OF assms(1), of dir n] show ?thesis by auto
next
  case (TileStep dir n)
  with assms steady_tile_step[of m a fuel dir n a'] show ?thesis by auto
next
  case (Turn dir)
  with assms show ?thesis by (auto simp: steady_def in_map_def same_body_def)
next
  case (TowardTarget tx ty)
  with assms steady_step[OF assms(1), of "toward a tx ty"] show ?thesis by auto
next
  case (AwayFromTarget tx ty)
  with assms steady_step[OF assms(1), of "opposite (toward a tx ty)"] show ?thesis by auto
qed

lemma steady_moveRoutes:
  "steady m a \<Longrightarrow> moveRoutes m fuel a cs = Some a' \<Longrightarrow> steady m a' \<and> same_body a a'"
proof (induction cs arbitrary: a)
  case Nil
  then show ?case by (simp add: same_body_refl)
next
  case (Cons c cs)
  from Cons.prems(2) obtain b where ad: "advance m fuel a c = Some b"
    and mr: "moveRoutes m fuel b cs = Some a'"
    by (auto split: option.splits)
  from steady_advance[OF Cons.prems(1) ad] have sb: "steady m b" "same_body a b" by blast+
  from Cons.IH[OF sb(1) mr] sb(2) show ?case by (auto intro: same_body_trans)
qed

lemma step_left_from_one:
  assumes x: "ac_x a = 1" and sp: "ac_speed a = 3" and v: "valid_at m (a\<lparr> ac_x := 0 \<rparr>)"
  shows "position (directional_step m a Left) = (0, ac_y a, ac_z a)"
proof -
  define a1 where "a1 = a\<lparr> ac_direction := Left \<rparr>"
  have nd: "\<not> valid_at m (displace a1 (vec Left) (ac_speed a1))"
    using valid_at_nonneg[of m "displace a1 (vec Left) (ac_speed a1)"] x sp
    by (auto simp: displace_def a1_def)
  have v0: "valid_at m (displace a1 (-1, 0) 1)"
    using v x valid_at_cong[of "displace a1 (-1, 0) 1" "a\<lparr> ac_x := 0 \<rparr>" m]
    by (simp add: displace_def a1_def)
  have n1: "\<not> valid_at m (displace (displace a1 (-1, 0) 1) (-1, 0) 1)"
    using valid_at_nonneg[of m "displace (displace a1 (-1, 0) 1) (-1, 0) 1"] x
    by (auto simp: displace_def a1_def)
  have "directional_step m a Left = slide m a1 (-1, 0) 3"
    using nd sp by (simp add: directional_step_def Let_def a1_def)
  also have "\<dots> = displace a1 (-1, 0) 1"
    using v0 n1 by (simp add: numeral_3_eq_3)
  finally show ?thesis using x by (simp add: position_def displace_def a1_def)
qed

text \<open>
  Claim C3. For an actor with a hitbox of non-negative size at a position of the map,
  a directional step ends at a position of the map (both coordinates non-negative, at
  most the width and the height of the map in pixels) and keeps \<open>z\<close>; the step always
  yields an actor, never an error; the same holds at the end of every route that
  ends. An actor at \<open>x = 1\<close> with speed 3, for which \<open>x = 0\<close> passes the check, ends one
  step Left at \<open>x = 0\<close> with \<open>y\<close> and \<open>z\<close> unchanged. (Numbers are integers here: that a
  coordinate is finite is not a statement of this model.)
\<close>

theorem move_stays_on_map:
  assumes "0 \<le> hb_width a" and "0 \<le> hb_height a" and "in_map m a"
  shows "in_map m (directional_step m a dir)
       \<and> ac_z (directional_step m a dir) = ac_z a
       \<and> advance m fuel a (Step dir) = Some (directional_step m a dir)
       \<and> (moveRoutes m fuel a cs = Some a' \<longrightarrow> in_map m a' \<and> ac_z a' = ac_z a)
       \<and> (ac_x a = 1 \<and> ac_speed a = 3 \<and> valid_at m (a\<lparr> ac_x := 0 \<rparr>)
            \<longrightarrow> position (directional_step m a Left) = (0, ac_y a, ac_z a))"
proof -
  from assms have st: "steady m a" by (simp add: steady_def)
  from steady_step[OF st, of dir]
  have c1: "in_map m (directional_step m a dir)" "ac_z (directional_step m a dir) = ac_z a"
    by (simp_all add: steady_def same_body_def)
  have c2: "in_map m a' \<and> ac_z a' = ac_z a" if "moveRoutes m fuel a cs = Some a'"
    using steady_moveRoutes[OF st that] by (simp add: steady_def same_body_def)
  from c1 c2 step_left_from_one[of a m] show ?thesis by simp
qed

subsection \<open>The tile-aligned step\<close>

lemma step_right_free:
  assumes "valid_at m (a\<lparr> ac_x := ac_x a + ac_speed a \<rparr>)"
  shows "directional_step m a Right = a\<lparr> ac_x := ac_x a + ac_speed a, ac_direction := Right \<rparr>"
proof -
  let ?dest = "displace (a\<lparr> ac_direction := Right \<rparr>) (vec Right) (ac_speed (a\<lparr> ac_direction := Right \<rparr>))"
  have "valid_at m ?dest = valid_at m (a\<lparr> ac_x := ac_x a + ac_speed a \<rparr>)"
    by (rule valid_at_cong) (simp_all add: displace_def)
  with assms have "valid_at m ?dest" by simp
  then have "directional_step m a Right = ?dest"
    by (simp add: directional_step_def Let_def)
  then show ?thesis by (simp add: displace_def)
qed

lemma tile_loop_run:
  "1 \<le> k \<Longrightarrow> k \<le> fuel \<Longrightarrow>
   (\<And>j. 1 \<le> j \<Longrightarrow> j \<le> k \<Longrightarrow> valid_at m (a\<lparr> ac_x := ac_x a + int j * ac_speed a \<rparr>)) \<Longrightarrow>
   (\<And>j. 1 \<le> j \<Longrightarrow> j < k \<Longrightarrow> (ac_x a + int j * ac_speed a) mod gm_tileWidth m \<noteq> 0) \<Longrightarrow>
   gm_tileWidth m \<noteq> 0 \<Longrightarrow> (ac_x a + int k * ac_speed a) mod gm_tileWidth m = 0 \<Longrightarrow>
     tile_loop m fuel a Right
       = Some (a\<lparr> ac_x := ac_x a + int k * ac_speed a, ac_direction := Right \<rparr>)"
proof (induction fuel arbitrary: a k)
  case 0
  then show ?case by simp
next
  case (Suc fuel)
  let ?s = "ac_speed a"
  let ?b = "a\<lparr> ac_x := ac_x a + ?s, ac_direction := Right \<rparr>"
  have "valid_at m (a\<lparr> ac_x := ac_x a + int 1 * ?s \<rparr>)"
    using Suc.prems(1) by (intro Suc.prems(3)) simp_all
  then have st: "directional_step m a Right = ?b"
    by (simp add: step_right_free)
  show ?case
  proof (cases "k = 1")
    case True
    with Suc.prems(5,6) have "aligned m ?b Right" by (simp add: aligned_def)
    with st True show ?thesis by (simp add: Let_def)
  next
    case False
    with Suc.prems(1) obtain k' where k: "k = Suc k'" and k1: "1 \<le> k'"
      by (cases k) auto
    have "(ac_x a + int 1 * ?s) mod gm_tileWidth m \<noteq> 0"
      using k k1 by (intro Suc.prems(4)) simp_all
    then have na: "\<not> aligned m ?b Right" by (simp add: aligned_def)
    have kf: "k' \<le> fuel" using Suc.prems(2) k by simp
    have free: "valid_at m (?b\<lparr> ac_x := ac_x ?b + int j * ac_speed ?b \<rparr>)"
      if "1 \<le> j" "j \<le> k'" for j
    proof -
      have "valid_at m (a\<lparr> ac_x := ac_x a + int (Suc j) * ?s \<rparr>)"
        using that k by (intro Suc.prems(3)) simp_all
      moreover have "valid_at m (?b\<lparr> ac_x := ac_x ?b + int j * ac_speed ?b \<rparr>)
          = valid_at m (a\<lparr> ac_x := ac_x a + int (Suc j) * ?s \<rparr>)"
        by (rule valid_at_cong) (simp_all add: algebra_simps)
      ultimately show ?thesis by simp
    qed
    have ny: "(ac_x ?b + int j * ac_speed ?b) mod gm_tileWidth m \<noteq> 0"
      if "1 \<le> j" "j < k'" for j
    proof -
      have "(ac_x a + int (Suc j) * ?s) mod gm_tileWidth m \<noteq> 0"
        using that k by (intro Suc.prems(4)) simp_all
      then show ?thesis by (simp add: algebra_simps)
    qed
    have fin: "(ac_x ?b + int k' * ac_speed ?b) mod gm_tileWidth m = 0"
      using Suc.prems(6) k by (simp add: algebra_simps)
    from Suc.IH[OF k1 kf free ny Suc.prems(5) fin]
    have "tile_loop m fuel ?b Right
       = Some (?b\<lparr> ac_x := ac_x ?b + int k' * ac_speed ?b, ac_direction := Right \<rparr>)" .
    with st na k show ?thesis by (simp add: Let_def algebra_simps)
  qed
qed

lemma tile_step_run:
  "0 < ac_speed a \<Longrightarrow> 0 < gm_tileWidth m \<Longrightarrow> ac_speed a dvd gm_tileWidth m \<Longrightarrow>
   gm_tileWidth m dvd ac_x a \<Longrightarrow> nat (gm_tileWidth m div ac_speed a) \<le> fuel \<Longrightarrow>
   (\<And>x. ac_x a \<le> x \<Longrightarrow> x \<le> ac_x a + int n * gm_tileWidth m \<Longrightarrow> valid_at m (a\<lparr> ac_x := x \<rparr>)) \<Longrightarrow>
     map_option position (tile_step m fuel a Right n)
       = Some (ac_x a + int n * gm_tileWidth m, ac_y a, ac_z a)"
proof (induction n arbitrary: a)
  case 0
  then show ?case by (simp add: position_def)
next
  case (Suc n)
  let ?s = "ac_speed a"
  let ?tw = "gm_tileWidth m"
  define k where "k = nat (?tw div ?s)"
  from Suc.prems(3) obtain q where q: "?tw = ?s * q" by (auto simp: dvd_def)
  with Suc.prems(1,2) have qpos: "0 < q" by (simp add: zero_less_mult_iff)
  have qd: "?tw div ?s = q" using q Suc.prems(1) by simp
  have kq: "int k = q" using qpos qd by (simp add: k_def)
  have ks: "int k * ?s = ?tw" using kq q by (simp add: mult.commute)
  have k1: "1 \<le> k" using kq qpos by linarith
  have kf: "k \<le> fuel" using Suc.prems(5) by (simp add: k_def)
  have free: "valid_at m (a\<lparr> ac_x := ac_x a + int j * ?s \<rparr>)" if "1 \<le> j" "j \<le> k" for j
  proof (rule Suc.prems(6))
    show "ac_x a \<le> ac_x a + int j * ?s" using Suc.prems(1) by simp
    have "int j * ?s \<le> int k * ?s"
      using that Suc.prems(1) by (intro mult_right_mono) simp_all
    also have "\<dots> \<le> int (Suc n) * ?tw" using ks Suc.prems(2) by (simp add: algebra_simps)
    finally show "ac_x a + int j * ?s \<le> ac_x a + int (Suc n) * ?tw" by simp
  qed
  have ny: "(ac_x a + int j * ?s) mod ?tw \<noteq> 0" if "1 \<le> j" "j < k" for j
  proof -
    have lt: "int j * ?s < int k * ?s"
      using that Suc.prems(1) by (intro mult_strict_right_mono) simp_all
    have pos: "0 < int j * ?s" using that Suc.prems(1) by simp
    have "(ac_x a + int j * ?s) mod ?tw = (int j * ?s) mod ?tw"
      using Suc.prems(4) by (simp add: mod_add_left_eq[symmetric] mod_0_imp_dvd dvd_imp_mod_0)
    also have "\<dots> = int j * ?s" using lt pos ks by simp
    finally have "(ac_x a + int j * ?s) mod ?tw = int j * ?s" .
    with pos show ?thesis by linarith
  qed
  have fin: "(ac_x a + int k * ?s) mod ?tw = 0"
    using Suc.prems(4) ks by (simp add: dvd_imp_mod_0)
  have twn: "?tw \<noteq> 0" using Suc.prems(2) by simp
  let ?b = "a\<lparr> ac_x := ac_x a + ?tw, ac_direction := Right \<rparr>"
  from tile_loop_run[OF k1 kf free ny twn fin] ks
  have tl: "tile_loop m fuel a Right = Some ?b" by simp
  have freeb: "valid_at m (?b\<lparr> ac_x := x \<rparr>)"
    if "ac_x ?b \<le> x" "x \<le> ac_x ?b + int n * ?tw" for x
  proof -
    have "valid_at m (a\<lparr> ac_x := x \<rparr>)"
      using that Suc.prems(2) by (intro Suc.prems(6)) (simp_all add: algebra_simps)
    moreover have "valid_at m (?b\<lparr> ac_x := x \<rparr>) = valid_at m (a\<lparr> ac_x := x \<rparr>)"
      by (rule valid_at_cong) simp_all
    ultimately show ?thesis by simp
  qed
  have "map_option position (tile_step m fuel ?b Right n)
       = Some (ac_x ?b + int n * ?tw, ac_y ?b, ac_z ?b)"
    using Suc.prems(1-5)
    by (intro Suc.IH freeb) simp_all
  with tl show ?case by (simp add: algebra_simps)
qed

text \<open>
  For an actor at the origin whose speed is positive and divides the tile width, on a
  path where every position passes the check, the tile-aligned step Right of count \<open>n\<close>
  ends (with fuel for one tile) at \<open>(n * tileWidth, 0, 0)\<close>: with tile width 30 and
  count 2 at \<open>(60, 0, 0)\<close>.
\<close>

theorem tile_step_right_lands_on_tiles:
  assumes "position a = (0, 0, 0)" and "0 < ac_speed a" and "0 < gm_tileWidth m"
    and "ac_speed a dvd gm_tileWidth m"
    and "\<forall>x \<in> {0 .. int n * gm_tileWidth m}. valid_at m (a\<lparr> ac_x := x \<rparr>)"
    and "nat (gm_tileWidth m div ac_speed a) \<le> fuel"
  shows "map_option position (advance m fuel a (TileStep Right n))
           = Some (int n * gm_tileWidth m, 0, 0)
       \<and> (gm_tileWidth m = 30 \<and> n = 2 \<longrightarrow>
            map_option position (advance m fuel a (TileStep Right n)) = Some (60, 0, 0))"
proof -
  from assms(1) have o: "ac_x a = 0" "ac_y a = 0" "ac_z a = 0" by (simp_all add: position_def)
  have "map_option position (tile_step m fuel a Right n)
       = Some (ac_x a + int n * gm_tileWidth m, ac_y a, ac_z a)"
    using assms(2-6) o by (intro tile_step_run) simp_all
  with o show ?thesis by auto
qed

subsection \<open>Concrete runs\<close>

theorem mode_mismatch_no_event_witness:
  "eo_mode (event_class (EventBare ex_scenario)) \<noteq> Some Shared
   \<and> createEvent ex_env 0 (EventBare ex_scenario) Shared None ex_state = (None, ex_state)
   \<and> createEvents ex_env 0 (Some [EventBare ex_scenario]) Shared ex_state = ([], ex_state)"
proof -
  have h: "eo_mode (event_class (EventBare ex_scenario)) \<noteq> Some Shared"
    by (simp add: event_class_def ex_scenario_def)
  from mode_mismatch_no_event[OF h, of ex_env 0 None ex_state "[]" "[]"] h
  show ?thesis by blast
qed

theorem createDynamicEvent_shared_only_witness:
  "eo_mode (event_class (EventBare ex_scenario)) = Some Scenario
   \<and> fst (createDynamicEvent ex_env 0
           (ManyEvents [EventPos 100 100 None ex_shared, EventBare ex_scenario]) ex_state)
       = [(''e'', 0)]
   \<and> nextRef (snd (createDynamicEvent ex_env 0
           (ManyEvents [EventPos 100 100 None ex_shared, EventBare ex_scenario]) ex_state)) = 1
   \<and> getEvent 0 ''e'' (snd (createDynamicEvent ex_env 0
           (ManyEvents [EventPos 100 100 None ex_shared, EventBare ex_scenario]) ex_state))
       = Own 0
   \<and> onInitCalls (actors (snd (createDynamicEvent ex_env 0
           (ManyEvents [EventPos 100 100 None ex_shared, EventBare ex_scenario]) ex_state)) 0)
       = 1
   \<and> createDynamicEvent ex_env 0
           (ManyEvents [EventPos 100 100 None ex_shared, EventBare ex_scenario]) ex_state
       = createDynamicEvent ex_env 0 (ManyEvents [EventPos 100 100 None ex_shared]) ex_state"
proof -
  let ?arg = "ManyEvents [EventPos 100 100 None ex_shared, EventBare ex_scenario]"
  have h: "eo_mode (event_class (EventBare ex_scenario)) = Some Scenario"
    by (simp add: event_class_def ex_scenario_def)
  have v: "fst (createDynamicEvent ex_env 0 ?arg ex_state) = [(''e'', 0)]"
    by (simp add: ex_defs map_defs)
  have n: "length (filter (\<lambda>obj. eo_mode (event_class obj) = Some Shared) (events_of ?arg)) = 1"
    by (simp add: events_of_def event_class_def ex_defs)
  have z: "nextRef ex_state = 0" by (simp add: ex_state_def)
  note T = createDynamicEvent_shared_only[of ex_env 0 ?arg ex_state "EventBare ex_scenario"
      "[EventPos 100 100 None ex_shared]" "[]"]
  from T[THEN conjunct2, THEN conjunct1] n z
  have c2: "nextRef (snd (createDynamicEvent ex_env 0 ?arg ex_state)) = 1" by simp
  from T[THEN conjunct2, THEN conjunct2, THEN conjunct1] v
  have c3: "getEvent 0 ''e'' (snd (createDynamicEvent ex_env 0 ?arg ex_state)) = Own 0
       \<and> onInitCalls (actors (snd (createDynamicEvent ex_env 0 ?arg ex_state)) 0) = 1"
    by simp
  from T[THEN conjunct2, THEN conjunct2, THEN conjunct2] h
  have c4: "createDynamicEvent ex_env 0 ?arg ex_state
       = createDynamicEvent ex_env 0 (ManyEvents [EventPos 100 100 None ex_shared]) ex_state"
    by simp
  from h v c2 c3 c4 show ?thesis by blast
qed

theorem load_idempotent_witness:
  "fst (load ex_env 0 ex_state) = Done
   \<and> map_id (maps (snd (load ex_env 0 ex_state)) 1) = map_id (maps (snd (load ex_env 0 ex_state)) 0)
   \<and> load ex_env_missing 0 (snd (load ex_env 0 ex_state)) = (Done, snd (load ex_env 0 ex_state))
   \<and> load ex_env_missing 1 (snd (load ex_env 0 ex_state)) = (Done, snd (load ex_env 0 ex_state))"
proof -
  have h: "fst (load ex_env 0 ex_state) = Done"
    by (simp add: ex_defs map_defs)
  have i: "map_id (maps (snd (load ex_env 0 ex_state)) 1)
      = map_id (maps (snd (load ex_env 0 ex_state)) 0)"
    by (simp add: ex_defs map_defs)
  from load_idempotent[OF h, of ex_env_missing 1] h i show ?thesis by blast
qed

theorem load_rejected_not_cached_witness:
  "\<not> obj_has (buffer ex_state) (map_id (maps ex_state 0))
   \<and> parseFile ex_env_missing (maps ex_state 0) = Rejected
   \<and> fst (load ex_env_missing 0 ex_state) = LoadRejected
   \<and> buffer (snd (load ex_env_missing 0 ex_state)) = []
   \<and> \<not> obj_has (buffer (snd (load ex_env_missing 0 ex_state))) ''town''"
proof -
  have h1: "\<not> obj_has (buffer ex_state) (map_id (maps ex_state 0))"
    by (simp add: ex_defs map_defs)
  have h2: "parseFile ex_env_missing (maps ex_state 0) = Rejected"
    by (simp add: ex_defs map_defs)
  have b: "buffer ex_state = []" "map_id (maps ex_state 0) = ''town''"
    by (simp_all add: ex_defs)
  from load_rejected_not_cached[OF h1 h2, of ex_env] h1 h2 b show ?thesis
    by simp
qed

theorem load_malformed_json_never_settles_witness:
  "\<not> obj_has (buffer ex_state) (map_id (maps ex_state 0))
   \<and> \<not> isBrowser ex_env_malformed
   \<and> map_file (maps ex_state 0) = FilePath ''town.json''
   \<and> readFile ex_env_malformed ''maps/town.json'' = Some ''{''
   \<and> jsonParse ex_env_malformed ''{'' = None
   \<and> fst (load ex_env_malformed 0 ex_state) = LoadNeverSettled
   \<and> buffer (snd (load ex_env_malformed 0 ex_state)) = []
   \<and> isBrowser ex_env_browser
   \<and> fetchJson ex_env_browser (FilePath ''town.json'') = None
   \<and> fst (load ex_env_browser 0 ex_state) = LoadRejected"
proof -
  have h1: "\<not> obj_has (buffer ex_state) (map_id (maps ex_state 0))"
    by (simp add: ex_defs map_defs)
  have h2: "\<not> isBrowser ex_env_malformed" by (simp add: ex_defs)
  have h3: "map_file (maps ex_state 0) = FilePath ''town.json''" by (simp add: ex_defs)
  have h4: "readFile ex_env_malformed (basePath ex_env_malformed @ ''/'' @ ''town.json'')
      = Some ''{''"
    by (simp add: ex_defs)
  have h4': "readFile ex_env_malformed ''maps/town.json'' = Some ''{''" by (simp add: ex_defs)
  have h5: "jsonParse ex_env_malformed ''{'' = None" by (simp add: ex_defs)
  have b: "isBrowser ex_env_browser \<and> fetchJson ex_env_browser (FilePath ''town.json'') = None"
    by (simp add: ex_defs)
  have e: "buffer ex_state = []" by (simp add: ex_defs)
  note T = load_malformed_json_never_settles[OF h1 h2 h3 h4 h5, of ex_env_browser]
  from T have c1: "fst (load ex_env_malformed 0 ex_state) = LoadNeverSettled" by blast
  from T e have c2: "buffer (snd (load ex_env_malformed 0 ex_state)) = []" by simp
  from T b have c3: "fst (load ex_env_browser 0 ex_state) = LoadRejected" by blast
  from h1 h2 h3 h4' h5 c1 c2 b c3 show ?thesis by blast
qed

text \<open>
  Claim C6, at a concrete input. The event \<open>EV-1\<close> is registered and stands in two cells
  of the grid. \<open>removeEvent\<close> answers \<open>true\<close> and takes it out of the registry, and the
  grid still holds its cells: the body of \<open>removeEvent\<close> never touches the grid, whereas
  \<open>onLeave\<close> clears the cells of a leaving player.
\<close>

theorem removeEvent_keeps_grid_cells:
  "fst (removeEvent 0 ''EV-1'' ex_placed) = True
   \<and> getEvent 0 ''EV-1'' (snd (removeEvent 0 ''EV-1'' ex_placed)) = Undefined
   \<and> obj_get (map_grid (maps (snd (removeEvent 0 ''EV-1'' ex_placed)) 0)) ''EV-1''
       = Some [(3, 3), (4, 3)]
   \<and> removeEvent 0 ''EV-9'' ex_placed = (False, ex_placed)"
  by (simp add: ex_defs map_defs)

lemma removeEvent_grid_unchanged:
  "map_grid (maps (snd (removeEvent this eventId s)) q) = map_grid (maps s q)"
  by (simp add: removeEvent_def upd_map_def)

lemma removeEvent_registry:
  "removeEvent this eventId s =
     (getEvent this eventId s \<noteq> Undefined,
      if getEvent this eventId s = Undefined then s
      else upd_map this (\<lambda>m. m\<lparr> map_events := obj_delete (map_events m) eventId \<rparr>) s)"
  by (simp add: removeEvent_def getEvent_def)

text \<open>An identifier that names no event but a member of \<open>Object.prototype\<close> passes the
  test of \<open>removeEvent\<close>: the answer is \<open>true\<close> and nothing is removed.\<close>

lemma removeEvent_inherited_member:
  "fst (removeEvent 0 ''toString'' ex_placed) = True
   \<and> map_events (maps (snd (removeEvent 0 ''toString'' ex_placed)) 0)
       = map_events (maps ex_placed 0)"
  by (simp add: ex_defs map_defs)

text \<open>The same on a state that the code builds: the event that \<open>createDynamicEvent\<close>
  creates is entered in the grid when it is placed; \<open>removeEvent\<close> takes it out of the
  registry and leaves it in the grid.\<close>

lemma removeEvent_after_create_keeps_grid_cells:
  "fst (createDynamicEvent ex_env 0 (OneEvent (EventPos 100 100 None ex_shared)) ex_state)
     = [(''e'', 0)]
   \<and> fst (removeEvent 0 ''e''
         (snd (createDynamicEvent ex_env 0 (OneEvent (EventPos 100 100 None ex_shared)) ex_state)))
     = True
   \<and> getEvent 0 ''e'' (snd (removeEvent 0 ''e''
         (snd (createDynamicEvent ex_env 0 (OneEvent (EventPos 100 100 None ex_shared)) ex_state))))
     = Undefined
   \<and> obj_get (map_grid (maps (snd (removeEvent 0 ''e''
         (snd (createDynamicEvent ex_env 0 (OneEvent (EventPos 100 100 None ex_shared)) ex_state))))
        0)) ''e''
     = Some [(3, 3), (4, 3)]"
  by (simp add: ex_defs map_defs)

theorem onLeave_exits_before_clear_witness:
  "trace (onLeave ex_env_group 0 1 ex_leave)
     = [ShapeOut (OfMap 0) ''zone'' ''p1'', OnOutShape ''p1'' ''zone'',
        ShapeOut (OfActor 1) ''aura'' ''ev1'', OnOutShape ''ev1'' ''aura'',
        ShapeOut (OfActor 2) ''sight'' ''p1'', OnOutShape ''p1'' ''sight'',
        ClearObjectInCells 0 ''p1'']
   \<and> obj_get (map_grid (maps (onLeave ex_env_group 0 1 ex_leave) 0)) ''p1'' = None"
proof -
  have v: "trace (onLeave ex_env_group 0 1 ex_leave)
     = [ShapeOut (OfMap 0) ''zone'' ''p1'', OnOutShape ''p1'' ''zone'',
        ShapeOut (OfActor 1) ''aura'' ''ev1'', OnOutShape ''ev1'' ''aura'',
        ShapeOut (OfActor 2) ''sight'' ''p1'', OnOutShape ''p1'' ''sight'',
        ClearObjectInCells 0 ''p1'']"
    by (simp add: ex_defs map_defs)
  have p: "pl_id (actors ex_leave 1) = ''p1''"
    by (simp add: ex_defs)
  from onLeave_exits_before_clear[of ex_env_group 0 1 ex_leave] p
  have "obj_get (map_grid (maps (onLeave ex_env_group 0 1 ex_leave) 0)) ''p1'' = None"
    by auto
  with v show ?thesis by simp
qed

subsection \<open>Concrete runs of the spatial core\<close>

theorem getSizeMaxShape_smallest_cover_witness:
  "getSizeMaxShape ex_actor = \<lparr> minX = 0, minY = 0, maxX = 32, maxY = 32 \<rparr>
   \<and> getSizeMaxShape (ex_carrier [ex_centred 100 100])
       = \<lparr> minX = 155, minY = 155, maxX = 255, maxY = 255 \<rparr>
   \<and> getSizeMaxShape (ex_carrier [ex_centred 100 100, ex_centred 50 200])
       = \<lparr> minX = 155, minY = 105, maxX = 255, maxY = 305 \<rparr>
   \<and> covers \<lparr> minX = 0, minY = 0, maxX = 400, maxY = 400 \<rparr>
        (getSizeMaxShape (ex_carrier [ex_centred 100 100, ex_centred 50 200]))
   \<and> minX (shape_box (ex_carrier [ex_centred 100 100, ex_centred 50 200]) (ex_centred 50 200))
       = 180"
proof -
  let ?two = "ex_carrier [ex_centred 100 100, ex_centred 50 200]"
  let ?B = "\<lparr> minX = 0, minY = 0, maxX = 400, maxY = 400 \<rparr>"
  have a0: "ac_x ex_actor = 0 \<and> ac_y ex_actor = 0 \<and> hb_width ex_actor = 32
      \<and> hb_height ex_actor = 32 \<and> ac_shapes ex_actor = []"
    by (simp add: ex_actor_def)
  have a1: "ac_x (ex_carrier [ex_centred 100 100]) = 200 \<and> ac_y (ex_carrier [ex_centred 100 100]) = 200
      \<and> hb_width (ex_carrier [ex_centred 100 100]) = 10
      \<and> hb_height (ex_carrier [ex_centred 100 100]) = 10
      \<and> ac_shapes (ex_carrier [ex_centred 100 100])
          = [\<lparr> at_width = 100, at_height = 100, at_positioning = Center \<rparr>]"
    by (simp add: ex_carrier_def ex_centred_def)
  have a2: "ac_x ?two = 200 \<and> ac_y ?two = 200 \<and> hb_width ?two = 10 \<and> hb_height ?two = 10
      \<and> ac_shapes ?two = [\<lparr> at_width = 100, at_height = 100, at_positioning = Center \<rparr>,
                           \<lparr> at_width = 50, at_height = 200, at_positioning = Center \<rparr>]"
    by (simp add: ex_carrier_def ex_centred_def)
  have h: "covers ?B (hitbox_box ?two) \<and> (\<forall>sh \<in> set (ac_shapes ?two). covers ?B (shape_box ?two sh))"
    by (simp add: ex_defs move_defs)
  have c: "at_positioning (ex_centred 50 200) = Center" by (simp add: ex_centred_def)
  note T0 = getSizeMaxShape_smallest_cover[of ex_actor ?B "ex_centred 50 200"]
  note T1 = getSizeMaxShape_smallest_cover[of "ex_carrier [ex_centred 100 100]" ?B "ex_centred 50 200"]
  note T2 = getSizeMaxShape_smallest_cover[of ?two ?B "ex_centred 50 200"]
  from T0 a0 have r0: "getSizeMaxShape ex_actor = \<lparr> minX = 0, minY = 0, maxX = 32, maxY = 32 \<rparr>"
    by blast
  from T1 a1 have r1: "getSizeMaxShape (ex_carrier [ex_centred 100 100])
       = \<lparr> minX = 155, minY = 155, maxX = 255, maxY = 255 \<rparr>"
    by blast
  from T2 a2 have r2: "getSizeMaxShape ?two = \<lparr> minX = 155, minY = 105, maxX = 255, maxY = 305 \<rparr>"
    by blast
  from T2 h have r3: "covers ?B (getSizeMaxShape ?two)" by blast
  from T2 c have "minX (shape_box ?two (ex_centred 50 200))
      = (of_int (ac_x ?two) + of_int (hb_width ?two) / 2) - of_int (at_width (ex_centred 50 200)) / 2"
    by blast
  then have r4: "minX (shape_box ?two (ex_centred 50 200)) = 180"
    by (simp add: ex_carrier_def ex_centred_def)
  from r0 r1 r2 r3 r4 show ?thesis by blast
qed

theorem trigger_fires_once_per_transition_witness:
  "distinct (map tr_name ex_triggers)
   \<and> set (overlap_set ex_triggers (ex_box 90)) = set [''zone'']
   \<and> fire ''p1'' (fst (evaluate ex_triggers (ex_box 90) [''zone''])) = []
   \<and> fst (commits ''p1'' (map (\<lambda>x. (ex_triggers, ex_box x)) [60, 80, 90, 120, 200]) [])
       = [OnInShape ''p1'' ''zone'', OnOutShape ''p1'' ''zone'']"
proof -
  let ?steps = "map (\<lambda>x. (ex_triggers, ex_box x)) [60, 80, 90, 120, 200]"
  have d: "distinct (map tr_name ex_triggers)" by (simp add: ex_triggers_def)
  have p: "distinct [''zone'']" by simp
  have l: "list_all (\<lambda>(shapes, B). distinct (map tr_name shapes)) ?steps"
    by (simp add: ex_triggers_def)
  have o: "set (overlap_set ex_triggers (ex_box 90)) = set [''zone'']"
    by (simp add: ex_defs move_defs)
  have v: "fst (commits ''p1'' ?steps []) = [OnInShape ''p1'' ''zone'', OnOutShape ''p1'' ''zone'']"
    by (simp add: ex_defs move_defs)
  from trigger_fires_once_per_transition[OF d p l, of "ex_box 90" "''p1''" "''zone''"] o
  have q: "fire ''p1'' (fst (evaluate ex_triggers (ex_box 90) [''zone''])) = []"
    by blast
  from d o q v show ?thesis by blast
qed

theorem move_stays_on_map_witness:
  "0 \<le> hb_width (ex_actor\<lparr> ac_x := 1 \<rparr>) \<and> 0 \<le> hb_height (ex_actor\<lparr> ac_x := 1 \<rparr>)
   \<and> in_map ex_gamemap (ex_actor\<lparr> ac_x := 1 \<rparr>)
   \<and> valid_at ex_gamemap (ex_actor\<lparr> ac_x := 0 \<rparr>)
   \<and> position (directional_step ex_gamemap (ex_actor\<lparr> ac_x := 1 \<rparr>) Left) = (0, 0, 0)
   \<and> in_map ex_gamemap (directional_step ex_gamemap (ex_actor\<lparr> ac_x := 1 \<rparr>) Left)
   \<and> moveRoutes ex_gamemap 0 (ex_actor\<lparr> ac_x := 1 \<rparr>) [Step Left, RepeatStep Right 2]
       = Some (repeat_step ex_gamemap
                 (directional_step ex_gamemap (ex_actor\<lparr> ac_x := 1 \<rparr>) Left) Right 2)
   \<and> in_map ex_gamemap (repeat_step ex_gamemap
                 (directional_step ex_gamemap (ex_actor\<lparr> ac_x := 1 \<rparr>) Left) Right 2)"
proof -
  let ?a = "ex_actor\<lparr> ac_x := 1 \<rparr>"
  let ?b = "repeat_step ex_gamemap (directional_step ex_gamemap ?a Left) Right 2"
  have h: "0 \<le> hb_width ?a" "0 \<le> hb_height ?a" "in_map ex_gamemap ?a"
    by (simp_all add: ex_defs in_map_def)
  have x: "ac_x ?a = 1 \<and> ac_speed ?a = 3 \<and> valid_at ex_gamemap (?a\<lparr> ac_x := 0 \<rparr>)"
    by (simp add: ex_defs move_defs)
  have r: "moveRoutes ex_gamemap 0 ?a [Step Left, RepeatStep Right 2] = Some ?b"
    by simp
  have yz: "ac_y ?a = 0" "ac_z ?a = 0" by (simp_all add: ex_defs)
  note T = move_stays_on_map[OF h, of Left 0 "[Step Left, RepeatStep Right 2]" ?b]
  from T x yz have p: "position (directional_step ex_gamemap ?a Left) = (0, 0, 0)" by simp
  from T have i: "in_map ex_gamemap (directional_step ex_gamemap ?a Left)" by blast
  from T r have j: "in_map ex_gamemap ?b" by blast
  from x have v: "valid_at ex_gamemap (ex_actor\<lparr> ac_x := 0 \<rparr>)" by simp
  from h v p i r j show ?thesis by blast
qed

theorem tile_step_right_lands_on_tiles_witness:
  "position ex_actor = (0, 0, 0) \<and> ac_speed ex_actor dvd gm_tileWidth ex_gamemap
   \<and> map_option position (advance ex_gamemap 10 ex_actor (TileStep Right 2)) = Some (60, 0, 0)"
proof -
  have h1: "position ex_actor = (0, 0, 0)" by (simp add: ex_defs position_def)
  have h2: "0 < ac_speed ex_actor" "0 < gm_tileWidth ex_gamemap"
    "ac_speed ex_actor dvd gm_tileWidth ex_gamemap"
    "nat (gm_tileWidth ex_gamemap div ac_speed ex_actor) \<le> 10"
    by (simp_all add: ex_defs)
  have h3: "\<forall>x \<in> {0 .. int 2 * gm_tileWidth ex_gamemap}. valid_at ex_gamemap (ex_actor\<lparr> ac_x := x \<rparr>)"
    by (simp add: ex_defs move_defs)
  have t: "gm_tileWidth ex_gamemap = 30" by (simp add: ex_defs)
  from tile_step_right_lands_on_tiles[OF h1 h2(1,2,3) h3 h2(4)] t h1 h2(3)
  show ?thesis by simp
qed

end
